theory Spec2Isabelle
  imports Complex_Main "HOL-Library.Multiset"
begin

section \<open>JavaScript preliminaries\<close>

text \<open>
  The program is TypeScript running on Node.js. Console output of the servers is left
  out, the supervisor's is kept as structured log lines. An exception is a value of
  \<open>js_error\<close>; a computation that may throw returns a sum with the error on the
  left. A promise that is rejected is an exception at its \<open>await\<close>.
\<close>

datatype js_error = TypeError | RangeError string | ThrownError string

text \<open>
  A value of type \<open>number\<close>: a real number, \<open>NaN\<close> or an infinity. Of the rounding
  only that of a counter is modelled, below.
\<close>

datatype js_number = Num real | NaN | PosInfinity | NegInfinity

text \<open>
  What Node accepts as a port in \<open>listen\<close> and \<open>connect\<close>: an integer from 0 to
  65535. For any other number both throw \<open>ERR_SOCKET_BAD_PORT\<close>, a \<open>RangeError\<close>,
  before a socket is touched.
\<close>

definition is_legal_port :: "js_number \<Rightarrow> bool" where
  "is_legal_port port =
     (case port of Num r \<Rightarrow> r \<in> \<int> \<and> 0 \<le> r \<and> r \<le> 65535 | _ \<Rightarrow> False)"

text \<open>The comparison \<open>attempt < maxAttempts\<close> of a counter with a number.\<close>

definition counter_less :: "nat \<Rightarrow> js_number \<Rightarrow> bool" where
  "counter_less attempt maxAttempts =
     (case maxAttempts of
        Num r \<Rightarrow> real attempt < r
      | NaN \<Rightarrow> False
      | PosInfinity \<Rightarrow> True
      | NegInfinity \<Rightarrow> False)"

text \<open>
  A loop counter is a number as well. It starts at 0 and is only incremented, so it is
  a whole number; \<open>attempt++\<close> is exact up to \<open>2^53\<close>, and there \<open>2^53 + 1\<close> is
  rounded back to \<open>2^53\<close>: the counter stays.
\<close>

definition counter_limit :: nat where
  "counter_limit = 2 ^ 53"

definition increment :: "nat \<Rightarrow> nat" where
  "increment attempt = (if attempt < counter_limit then Suc attempt else attempt)"

text \<open>A parameter with a default value: \<open>undefined\<close> is \<open>None\<close>.\<close>

definition default_arg :: "'a \<Rightarrow> 'a option \<Rightarrow> 'a" where
  "default_arg d a = (case a of None \<Rightarrow> d | Some v \<Rightarrow> v)"

subsection \<open>Plain objects used as dictionaries\<close>

text \<open>
  \<open>atoms: Record<string, Atom> = {}\<close> is an ordinary object created by an object
  literal, so its prototype is \<open>Object.prototype\<close>. Two facts of the language matter
  for a dictionary keyed by arbitrary strings:
  \<^item> an assignment \<open>obj[k] = v\<close> creates or overwrites the own property \<open>k\<close>, except
    for the key \<open>__proto__\<close>: that one is an accessor inherited from
    \<open>Object.prototype\<close>, and assigning an object to it replaces the prototype of
    \<open>obj\<close> and creates no own property;
  \<^item> \<open>Object.values\<close> lists the own enumerable properties, the keys that are array
    indices (canonical decimal numerals below \<open>2^32 - 1\<close>) first in ascending
    numeric order, then the other keys in the order of their creation.
  The record keeps the own properties in creation order and the prototype when it has
  been replaced (\<open>None\<close> stands for \<open>Object.prototype\<close>).
\<close>

record 'v js_object =
  prototype :: "'v option"
  own_props :: "(string \<times> 'v) list"

definition empty_object :: "'v js_object" where
  "empty_object = \<lparr>prototype = None, own_props = []\<rparr>"

fun put_prop :: "string \<Rightarrow> 'v \<Rightarrow> (string \<times> 'v) list \<Rightarrow> (string \<times> 'v) list" where
  "put_prop k v [] = [(k, v)]"
| "put_prop k v (p # ps) = (if fst p = k then (k, v) # ps else p # put_prop k v ps)"

definition obj_assign :: "'v js_object \<Rightarrow> string \<Rightarrow> 'v \<Rightarrow> 'v js_object" where
  "obj_assign obj k v =
     (if k = ''__proto__'' then obj\<lparr>prototype := Some v\<rparr>
      else obj\<lparr>own_props := put_prop k v (own_props obj)\<rparr>)"

definition is_digit :: "char \<Rightarrow> bool" where
  "is_digit c = (c \<in> set ''0123456789'')"

definition digit_value :: "char \<Rightarrow> nat" where
  "digit_value c = of_char c - 48"

definition decimal_value :: "string \<Rightarrow> nat" where
  "decimal_value s = foldl (\<lambda>n c. 10 * n + digit_value c) 0 s"

definition is_array_index :: "string \<Rightarrow> bool" where
  "is_array_index s =
     (case s of
        [] \<Rightarrow> False
      | c # cs \<Rightarrow> list_all is_digit s \<and> (if c = CHR ''0'' then cs = [] else True)
                 \<and> decimal_value s < 4294967295)"

definition own_property_order :: "(string \<times> 'v) list \<Rightarrow> (string \<times> 'v) list" where
  "own_property_order ps =
     sort_key (\<lambda>p. decimal_value (fst p)) (filter (\<lambda>p. is_array_index (fst p)) ps)
     @ filter (\<lambda>p. \<not> is_array_index (fst p)) ps"

definition own_keys :: "'v js_object \<Rightarrow> string list" where
  "own_keys obj = map fst (own_property_order (own_props obj))"

definition Object_values :: "'v js_object \<Rightarrow> 'v list" where
  "Object_values obj = map snd (own_property_order (own_props obj))"

definition own_lookup :: "'v js_object \<Rightarrow> string \<Rightarrow> 'v option" where
  "own_lookup obj k = map_of (own_props obj) k"

section \<open>Port prober (port-checker.ts)\<close>

text \<open>
  The operating system is a parameter: \<open>net port\<close> is the event the probing server
  emits after \<open>server.listen(port)\<close>, either \<open>listening\<close> or \<open>error\<close> with the
  error's \<open>code\<close> (which may be absent). The probe returns how its promise is
  settled and the socket operations it performed. \<open>server.listen(port)\<close> is called
  inside the promise's executor with no \<open>try\<close> around it: when it throws, for a
  value that is no port, the promise is rejected with that exception.
\<close>

datatype listen_event = Listening | ListenError "string option"

datatype socket_op = CreateServer | Listen js_number | CloseServer

definition isPortAvailable ::
  "(js_number \<Rightarrow> listen_event) \<Rightarrow> js_number \<Rightarrow> (js_error + bool) \<times> socket_op list" where
  "isPortAvailable net port =
     (if \<not> is_legal_port port
      then (Inl (RangeError ''ERR_SOCKET_BAD_PORT''), [CreateServer, Listen port])
      else
        (case net port of
           ListenError code \<Rightarrow>
             (if code = Some ''EADDRINUSE'' then (Inr False, [CreateServer, Listen port])
              else (Inr True, [CreateServer, Listen port]))
         | Listening \<Rightarrow> (Inr True, [CreateServer, Listen port, CloseServer])))"

text \<open>
  \<open>canConnectToPort\<close> resolves with the first of three events: the socket connects,
  the socket reports an error, or the timer of 1000 ms fires. \<open>client.connect\<close> is
  called inside the executor as well, so for a value that is no port the promise is
  rejected.
\<close>

datatype connect_event = Connected | ConnectError | TimedOut

definition canConnectToPort :: "connect_event \<Rightarrow> js_number \<Rightarrow> js_error + bool" where
  "canConnectToPort ev port =
     (if \<not> is_legal_port port then Inl (RangeError ''ERR_SOCKET_BAD_PORT'')
      else (case ev of Connected \<Rightarrow> Inr True | ConnectError \<Rightarrow> Inr False | TimedOut \<Rightarrow> Inr False))"

text \<open>
  \<open>waitForServerOnPort\<close>: the loop \<open>for (attempt = 0; attempt < maxAttempts; attempt++)\<close>.
  \<open>peer k\<close> is what the attempt made with the counter at \<open>k\<close> meets. The trace lists the calls
  of \<open>canConnectToPort\<close> and the timers awaited, in order. \<open>maxAttempts\<close> is any
  number, so the loop need not end: the result \<open>None\<close> is a call that never returns.
  A rejected \<open>canConnectToPort\<close> is not caught; it ends the loop and rejects the
  promise of \<open>waitForServerOnPort\<close>.
\<close>

datatype wait_step = CanConnect js_number | Sleep js_number

partial_function (option) wait_loop ::
  "(nat \<Rightarrow> connect_event) \<Rightarrow> js_number \<Rightarrow> js_number \<Rightarrow> js_number \<Rightarrow> nat \<Rightarrow> wait_step list
     \<Rightarrow> ((js_error + bool) \<times> wait_step list) option" where
  "wait_loop peer port maxAttempts intervalMs attempt tr =
     (if counter_less attempt maxAttempts then
        (case canConnectToPort (peer attempt) port of
           Inl e \<Rightarrow> Some (Inl e, tr @ [CanConnect port])
         | Inr canConnect \<Rightarrow>
             if canConnect then Some (Inr True, tr @ [CanConnect port])
             else wait_loop peer port maxAttempts intervalMs (increment attempt)
                    (tr @ [CanConnect port, Sleep intervalMs]))
      else Some (Inr False, tr))"

definition waitForServerOnPort ::
  "(nat \<Rightarrow> connect_event) \<Rightarrow> js_number \<Rightarrow> js_number option \<Rightarrow> js_number option
     \<Rightarrow> ((js_error + bool) \<times> wait_step list) option" where
  "waitForServerOnPort peer port maxAttempts intervalMs =
     wait_loop peer port (default_arg (Num 10) maxAttempts) (default_arg (Num 500) intervalMs) 0 []"


section \<open>Control server side channel (websocket-server.ts)\<close>

text \<open>
  The field \<open>wss\<close> holds a reference that may be \<open>null\<close>. A handle records the port
  it was created for, the events that have listeners, and whether the server is
  listening on its port. Calling a method on \<open>null\<close> throws a \<open>TypeError\<close>.
\<close>

record ws_handle =
  listen_port :: js_number
  listeners :: "string list"
  listening :: bool

record websocket_server =
  ws_port :: js_number
  wss :: "ws_handle option"
  clients :: "nat list"

definition wss_on :: "ws_handle option \<Rightarrow> string \<Rightarrow> js_error + ws_handle option" where
  "wss_on ref ev =
     (case ref of
        None \<Rightarrow> Inl TypeError
      | Some h \<Rightarrow> Inr (Some (h\<lparr>listeners := listeners h @ [ev]\<rparr>)))"

text \<open>
  The three registrations \<open>this.wss.on('connection' | 'listening' | 'error', ...)\<close>,
  in the order of the source; the first that throws ends the sequence.
\<close>

definition register_listeners :: "websocket_server \<Rightarrow> js_error + websocket_server" where
  "register_listeners this =
     (case wss_on (wss this) ''connection'' of
        Inl e \<Rightarrow> Inl e
      | Inr r1 \<Rightarrow>
          (case wss_on r1 ''listening'' of
             Inl e \<Rightarrow> Inl e
           | Inr r2 \<Rightarrow>
               (case wss_on r2 ''error'' of
                  Inl e \<Rightarrow> Inl e
                | Inr r3 \<Rightarrow> Inr (this\<lparr>wss := r3\<rparr>))))"

definition WebSocketServer_constructor :: "js_number option \<Rightarrow> js_error + websocket_server" where
  "WebSocketServer_constructor port =
     register_listeners \<lparr>ws_port = default_arg (Num 8090) port, wss = None, clients = []\<rparr>"

text \<open>
  \<open>init\<close>: the body of the \<open>try\<close> block returns its outcome together with the object
  as it is at that point. A rejected probe is an exception at the \<open>await\<close>.
  \<open>new WSServer({ port })\<close> of the library either throws or yields a server that has
  started to bind and is not listening yet, which is the parameter \<open>create\<close>. The
  \<open>catch\<close> clause turns every exception into the result \<open>false\<close>.
\<close>

definition init_try ::
  "(js_number \<Rightarrow> listen_event) \<Rightarrow> (js_number \<Rightarrow> js_error + ws_handle) \<Rightarrow> websocket_server
     \<Rightarrow> (js_error + bool) \<times> websocket_server" where
  "init_try net create this =
     (case fst (isPortAvailable net (ws_port this)) of
        Inl e \<Rightarrow> (Inl e, this)
      | Inr portAvailable \<Rightarrow>
          if \<not> portAvailable then (Inr False, this)
          else
            (case create (ws_port this) of
               Inl e \<Rightarrow> (Inl e, this)
             | Inr h \<Rightarrow>
                 (let this1 = this\<lparr>wss := Some h\<rparr> in
                  case register_listeners this1 of
                    Inl e \<Rightarrow> (Inl e, this1)
                  | Inr this2 \<Rightarrow> (Inr True, this2))))"

definition init ::
  "(js_number \<Rightarrow> listen_event) \<Rightarrow> (js_number \<Rightarrow> js_error + ws_handle) \<Rightarrow> websocket_server
     \<Rightarrow> (js_error + bool) \<times> websocket_server" where
  "init net create this =
     (case init_try net create this of
        (Inl e, this') \<Rightarrow> (Inr False, this')
      | (Inr b, this') \<Rightarrow> (Inr b, this'))"

text \<open>
  The bind that \<open>new WSServer\<close> started ends after \<open>init\<close> has returned: the server
  emits \<open>listening\<close> and is then bound to the port, or it emits \<open>error\<close> and is not.
  The listeners that \<open>init\<close> registered for the two events only write to the
  console. An instance is running when it has a server that is listening.
\<close>

definition wss_bind_result :: "listen_event \<Rightarrow> websocket_server \<Rightarrow> websocket_server" where
  "wss_bind_result ev this =
     (case wss this of
        None \<Rightarrow> this
      | Some h \<Rightarrow>
          (case ev of
             Listening \<Rightarrow> this\<lparr>wss := Some (h\<lparr>listening := True\<rparr>)\<rparr>
           | ListenError code \<Rightarrow> this))"


text \<open>
  A call of \<open>init\<close> followed by the end of the bind it started: \<open>bind port\<close> is the
  event the new server emits. The result is the value \<open>init\<close> returned and the
  instance after the event.
\<close>

definition init_and_bind ::
  "(js_number \<Rightarrow> listen_event) \<Rightarrow> (js_number \<Rightarrow> js_error + ws_handle)
     \<Rightarrow> (js_number \<Rightarrow> listen_event) \<Rightarrow> websocket_server
     \<Rightarrow> (js_error + bool) \<times> websocket_server" where
  "init_and_bind net create bind this =
     (case init net create this of
        (Inr True, this') \<Rightarrow> (Inr True, wss_bind_result (bind (ws_port this')) this')
      | (r, this') \<Rightarrow> (r, this'))"

section \<open>Graph server (visualization-server.ts)\<close>

datatype atom_type = Premise | Reasoning | Hypothesis | Verification | Conclusion

record atom =
  atomId :: string
  content :: string
  atomType :: atom_type
  dependencies :: "string list"
  confidence :: real
  isVerified :: bool
  depth :: "int option"
  created :: int

text \<open>
  The payload of \<open>/api/atoms\<close> and of the event \<open>atoms-update\<close>, and the three
  events of the push channel.
\<close>

record snapshot =
  snap_atoms :: "atom list"
  snap_atomOrder :: "string list"

datatype message = AtomsUpdate snapshot | AtomUpdate atom | AtomsOrder "string list"

text \<open>
  The socket.io server: the sockets that are connected, and every message handed to
  the transport with the socket it is addressed to, in the order of the calls.
  \<open>io.emit\<close> addresses every connected socket, \<open>socket.emit\<close> one.
\<close>

record socket_io =
  connected :: "nat list"
  delivered :: "(nat \<times> message) list"

definition io_emit :: "socket_io \<Rightarrow> message \<Rightarrow> socket_io" where
  "io_emit sio m = sio\<lparr>delivered := delivered sio @ map (\<lambda>c. (c, m)) (connected sio)\<rparr>"

definition socket_emit :: "socket_io \<Rightarrow> nat \<Rightarrow> message \<Rightarrow> socket_io" where
  "socket_emit sio c m = sio\<lparr>delivered := delivered sio @ [(c, m)]\<rparr>"

record visualization_server =
  vs_port :: js_number
  atoms :: "atom js_object"
  atomOrder :: "string list"
  io :: socket_io

definition VisualizationServer_constructor :: "js_number option \<Rightarrow> visualization_server" where
  "VisualizationServer_constructor port =
     \<lparr>vs_port = default_arg (Num 3000) port, atoms = empty_object, atomOrder = [],
      io = \<lparr>connected = [], delivered = []\<rparr>\<rparr>"

text \<open>The response of \<open>GET /api/atoms\<close>.\<close>

definition api_atoms :: "visualization_server \<Rightarrow> snapshot" where
  "api_atoms this = \<lparr>snap_atoms = Object_values (atoms this), snap_atomOrder = atomOrder this\<rparr>"

text \<open>
  The listener of \<open>connection\<close>: the socket has joined the connected ones, and is
  sent the current atoms and order.
\<close>

definition on_connection :: "visualization_server \<Rightarrow> nat \<Rightarrow> visualization_server" where
  "on_connection this socket =
     this\<lparr>io := socket_emit ((io this)\<lparr>connected := connected (io this) @ [socket]\<rparr>) socket
        (AtomsUpdate \<lparr>snap_atoms = Object_values (atoms this),
                       snap_atomOrder = atomOrder this\<rparr>)\<rparr>"

definition updateAtom :: "visualization_server \<Rightarrow> atom \<Rightarrow> visualization_server" where
  "updateAtom this a =
     (let this1 = this\<lparr>atoms := obj_assign (atoms this) (atomId a) a\<rparr>;
          this2 = (if atomId a \<notin> set (atomOrder this1)
                   then this1\<lparr>atomOrder := atomOrder this1 @ [atomId a]\<rparr> else this1);
          this3 = this2\<lparr>io := io_emit (io this2) (AtomUpdate a)\<rparr>
      in this3\<lparr>io := io_emit (io this3) (AtomsOrder (atomOrder this3))\<rparr>)"

text \<open>
  What happens to a server after its construction: atoms are published and observers
  connect. The fields are private, so these are all the states a server can be in.
\<close>

datatype vs_event = Publish atom | Connection nat

fun vs_step :: "visualization_server \<Rightarrow> vs_event \<Rightarrow> visualization_server" where
  "vs_step this (Publish a) = updateAtom this a"
| "vs_step this (Connection socket) = on_connection this socket"

definition vs_run :: "js_number option \<Rightarrow> vs_event list \<Rightarrow> visualization_server" where
  "vs_run port evs = foldl vs_step (VisualizationServer_constructor port) evs"

definition publish_all :: "visualization_server \<Rightarrow> atom list \<Rightarrow> visualization_server" where
  "publish_all this as = foldl updateAtom this as"

text \<open>The messages a socket has been sent, oldest first.\<close>

definition inbox :: "visualization_server \<Rightarrow> nat \<Rightarrow> message list" where
  "inbox this socket = map snd (filter (\<lambda>d. fst d = socket) (delivered (io this)))"

text \<open>
  The invariant of the data model: the order lists every key of \<open>atoms\<close> exactly once,
  and only those keys.
\<close>

definition order_matches_atoms :: "visualization_server \<Rightarrow> bool" where
  "order_matches_atoms this =
     (distinct (atomOrder this) \<and> set (atomOrder this) = set (own_keys (atoms this)))"

text \<open>
  For the proofs: what every reachable state satisfies. The order has no duplicates,
  the own properties of \<open>atoms\<close> are, in creation order, the ids of the order other
  than \<open>__proto__\<close>, and every atom is stored under its own id.
\<close>

definition graph_inv :: "visualization_server \<Rightarrow> bool" where
  "graph_inv this =
     (distinct (atomOrder this)
      \<and> map fst (own_props (atoms this)) = filter (\<lambda>k. k \<noteq> ''__proto__'') (atomOrder this)
      \<and> list_all (\<lambda>p. atomId (snd p) = fst p) (own_props (atoms this)))"

text \<open>A history in which no published atom has the id \<open>__proto__\<close>.\<close>

definition proto_free :: "vs_event list \<Rightarrow> bool" where
  "proto_free evs =
     list_all (\<lambda>e. case e of Publish a \<Rightarrow> atomId a \<noteq> ''__proto__'' | Connection c \<Rightarrow> True) evs"

text \<open>An atom with a given id and content, for the examples.\<close>

definition example_atom :: "string \<Rightarrow> string \<Rightarrow> atom" where
  "example_atom i c =
     \<lparr>atomId = i, content = c, atomType = Premise, dependencies = [], confidence = 0.9,
      isVerified = False, depth = None, created = 0\<rparr>"

subsection \<open>The observer's page (script of generateHTML)\<close>

record client_state =
  c_atoms :: "atom js_object"
  c_atomOrder :: "string list"

definition client_init :: client_state where
  "client_init = \<lparr>c_atoms = empty_object, c_atomOrder = []\<rparr>"

fun client_on :: "client_state \<Rightarrow> message \<Rightarrow> client_state" where
  "client_on c (AtomsUpdate data) =
     c\<lparr>c_atoms := foldl (\<lambda>obj a. obj_assign obj (atomId a) a) (c_atoms c) (snap_atoms data),
       c_atomOrder := snap_atomOrder data\<rparr>"
| "client_on c (AtomUpdate a) = c\<lparr>c_atoms := obj_assign (c_atoms c) (atomId a) a\<rparr>"
| "client_on c (AtomsOrder newOrder) = c\<lparr>c_atomOrder := newOrder\<rparr>"

section \<open>Instance supervisor (launcher.ts)\<close>

text \<open>
  A child process handle has the flag \<open>killed\<close>, set by a call of \<open>kill\<close> that
  delivered its signal, and the listener of \<open>error\<close> that the launching function
  attached to it: one that writes to the console, or one that writes to the console
  and calls \<open>cleanup\<close>. What a call of \<open>kill\<close> does is the operating system's
  answer, a parameter indexed by process id. Three answers run no listener: the
  signal is sent, it is not sent (\<open>kill\<close> returns false: the child is gone), or the
  call throws. The fourth is treated with the nested runs of \<open>cleanup\<close> below.
\<close>

datatype error_listener = LogOnly | LogAndCleanup

record child_process =
  pid :: nat
  killed :: bool
  on_error :: error_listener

record process_info =
  process :: child_process
  name :: string

datatype kill_outcome = SignalSent | SignalNotSent | KillThrows

datatype log_line =
    ShuttingDown
  | Terminated string
  | FailedToKill string
  | McpFailedToStart
  | McpExited "int option" "string option"
  | VisPortInUse js_number
  | VisWillReuse
  | VisFailedToStart
  | VisExited "int option" "string option"
  | VisLaunchError

datatype sup_action = ConsoleError log_line | Kill nat | ProcessExit int | Delay int

text \<open>
  The supervisor: the tracked children, what it has done so far, whether
  \<open>process.exit\<close> has been entered (Node's flag \<open>process._exiting\<close>), and the exit
  code once the process has ended.
\<close>

record supervisor =
  processes :: "process_info list"
  actions :: "sup_action list"
  exiting :: bool
  exit_code :: "int option"

definition supervisor_init :: supervisor where
  "supervisor_init = \<lparr>processes = [], actions = [], exiting = False, exit_code = None\<rparr>"

text \<open>
  The body of the \<open>forEach\<close> in \<open>cleanup\<close>, for one tracked child and a call of
  \<open>kill\<close> that runs no listener; and one run of \<open>cleanup\<close> made of such calls, up
  to and with its call of \<open>process.exit(0)\<close>. That call runs \<open>cleanup\<close> once more
  before the process ends, as the listener of the process's own \<open>exit\<close>: a whole
  teardown is \<open>run_cleanup\<close> below, and with calls of \<open>kill\<close> that run no
  listener it is two such runs, one after the other.
\<close>

definition kill_child :: "(nat \<Rightarrow> kill_outcome) \<Rightarrow> process_info \<Rightarrow> process_info \<times> sup_action list" where
  "kill_child os p =
     (if \<not> killed (process p) then
        (case os (pid (process p)) of
           SignalSent \<Rightarrow>
             (p\<lparr>process := (process p)\<lparr>killed := True\<rparr>\<rparr>,
              [Kill (pid (process p)), ConsoleError (Terminated (name p))])
         | SignalNotSent \<Rightarrow> (p, [Kill (pid (process p)), ConsoleError (Terminated (name p))])
         | KillThrows \<Rightarrow> (p, [Kill (pid (process p)), ConsoleError (FailedToKill (name p))]))
      else (p, []))"

definition cleanup :: "(nat \<Rightarrow> kill_outcome) \<Rightarrow> supervisor \<Rightarrow> supervisor" where
  "cleanup os st =
     st\<lparr>processes := map (\<lambda>p. fst (kill_child os p)) (processes st),
        actions := actions st @ [ConsoleError ShuttingDown]
                   @ concat (map (\<lambda>p. snd (kill_child os p)) (processes st))
                   @ [ProcessExit 0],
        exit_code := Some 0\<rparr>"

text \<open>The processes on which \<open>kill\<close> was called, in order.\<close>

definition kill_attempts :: "sup_action list \<Rightarrow> nat list" where
  "kill_attempts acts = concat (map (\<lambda>a. case a of Kill p \<Rightarrow> [p] | _ \<Rightarrow> []) acts)"

text \<open>The tracked children, and those whose handle is not yet marked as killed.\<close>

definition tracked_pids :: "supervisor \<Rightarrow> nat list" where
  "tracked_pids st = map (\<lambda>p. pid (process p)) (processes st)"


definition console_error :: "supervisor \<Rightarrow> log_line \<Rightarrow> supervisor" where
  "console_error st l = st\<lparr>actions := actions st @ [ConsoleError l]\<rparr>"

text \<open>
  \<open>fork\<close> yields the new child's process id, or throws. The listeners that
  \<open>launchMcpServer\<close> and \<open>launchVisualizationServer\<close> attach to the child are the
  four functions after them. In \<open>launchVisualizationServer\<close> the whole body is in a
  \<open>try\<close>: a rejected probe and a throwing \<open>fork\<close> end in its \<open>catch\<close>.
\<close>

datatype fork_result = Forked nat | ForkThrows js_error

definition launchMcpServer ::
  "(string \<Rightarrow> fork_result) \<Rightarrow> supervisor \<Rightarrow> (js_error + child_process) \<times> supervisor" where
  "launchMcpServer fork st =
     (case fork ''./index.js'' of
        ForkThrows e \<Rightarrow> (Inl e, st)
      | Forked p \<Rightarrow>
          (let mcpProcess = \<lparr>pid = p, killed = False, on_error = LogAndCleanup\<rparr> in
           (Inr mcpProcess,
            st\<lparr>processes := processes st @ [\<lparr>process = mcpProcess, name = ''MCP server''\<rparr>]\<rparr>)))"



definition launchVisualizationServer ::
  "(js_number \<Rightarrow> listen_event) \<Rightarrow> (string \<Rightarrow> fork_result) \<Rightarrow> js_number \<Rightarrow> supervisor
     \<Rightarrow> child_process option \<times> supervisor" where
  "launchVisualizationServer net fork port st =
     (case fst (isPortAvailable net port) of
        Inl e \<Rightarrow> (None, console_error st VisLaunchError)
      | Inr visPortAvailable \<Rightarrow>
          if \<not> visPortAvailable then
            (None, console_error (console_error st (VisPortInUse port)) VisWillReuse)
          else
            (case fork ''./visualize.js'' of
               ForkThrows e \<Rightarrow> (None, console_error st VisLaunchError)
             | Forked p \<Rightarrow>
                 (let visualizerProcess = \<lparr>pid = p, killed = False, on_error = LogOnly\<rparr> in
                  (Some visualizerProcess,
                   st\<lparr>processes := processes st
                                  @ [\<lparr>process = visualizerProcess, name = ''Visualization server''\<rparr>],
                      actions := actions st @ [Delay 1000]\<rparr>))))"





subsection \<open>Nested runs of cleanup\<close>

text \<open>
  Two calls inside \<open>cleanup\<close> can run \<open>cleanup\<close> again before they return.
  \<^item> \<open>kill\<close> has a fourth answer: the signal cannot be sent for another reason
    (\<open>EPERM\<close>). Then \<open>kill\<close> emits \<open>error\<close> on the child, which runs the child's
    listener at once, and returns false. The listener of the MCP server calls
    \<open>cleanup\<close>.
  \<^item> \<open>process.exit(0)\<close> sets the flag \<open>exiting\<close> and emits \<open>exit\<close>, whose listener is
    \<open>cleanup\<close>; only then the process ends. Entered with the flag set, it ends the
    process at once. Once the process has ended nothing runs any more.
  The nesting is bounded by the call stack: \<open>run_cleanup stack\<close> is a call of
  \<open>cleanup\<close> with room for \<open>stack\<close> nested calls, and a call with no room throws a
  \<open>RangeError\<close>. An exception in a listener run by \<open>kill\<close> leaves \<open>kill\<close> and is
  caught by the \<open>catch\<close> of the loop body; an exception in the listener of \<open>exit\<close>
  leaves \<open>process.exit\<close> and \<open>cleanup\<close>. The answer of the operating system may
  depend on the number of calls of \<open>kill\<close> made before.
\<close>

datatype kill_result = Plain kill_outcome | ErrorEvent

definition kill_in_loop ::
  "(supervisor \<Rightarrow> js_error option \<times> supervisor) \<Rightarrow> (nat \<Rightarrow> nat \<Rightarrow> kill_result)
     \<Rightarrow> supervisor \<Rightarrow> nat \<Rightarrow> supervisor" where
  "kill_in_loop nested os st i =
     (if exit_code st \<noteq> None then st
      else
        (let p = processes st ! i in
         if killed (process p) then st
         else
           (case os (length (kill_attempts (actions st))) (pid (process p)) of
              Plain outcome \<Rightarrow>
                st\<lparr>processes := (processes st)[i := fst (kill_child (\<lambda>q. outcome) p)],
                   actions := actions st @ snd (kill_child (\<lambda>q. outcome) p)\<rparr>
            | ErrorEvent \<Rightarrow>
                (let st1 = st\<lparr>actions := actions st @ [Kill (pid (process p))]\<rparr> in
                 case on_error (process p) of
                   LogOnly \<Rightarrow>
                     console_error (console_error st1 VisFailedToStart) (Terminated (name p))
                 | LogAndCleanup \<Rightarrow>
                     (case nested (console_error st1 McpFailedToStart) of
                        (thrown, st2) \<Rightarrow>
                          if exit_code st2 \<noteq> None then st2
                          else
                            (case thrown of
                               Some e \<Rightarrow> console_error st2 (FailedToKill (name p))
                             | None \<Rightarrow> console_error st2 (Terminated (name p))))))))"

definition process_exit ::
  "(supervisor \<Rightarrow> js_error option \<times> supervisor) \<Rightarrow> supervisor \<Rightarrow> js_error option \<times> supervisor" where
  "process_exit exit_listener st =
     (let st1 = st\<lparr>actions := actions st @ [ProcessExit 0]\<rparr> in
      if exiting st1 then (None, st1\<lparr>exit_code := Some 0\<rparr>)
      else
        (case exit_listener (st1\<lparr>exiting := True\<rparr>) of
           (thrown, st2) \<Rightarrow>
             if exit_code st2 \<noteq> None then (None, st2)
             else
               (case thrown of
                  Some e \<Rightarrow> (Some e, st2)
                | None \<Rightarrow> (None, st2\<lparr>exit_code := Some 0\<rparr>))))"

primrec run_cleanup ::
  "nat \<Rightarrow> (nat \<Rightarrow> nat \<Rightarrow> kill_result) \<Rightarrow> supervisor \<Rightarrow> js_error option \<times> supervisor" where
  "run_cleanup 0 os st = (Some (RangeError ''Maximum call stack size exceeded''), st)"
| "run_cleanup (Suc stack) os st =
     (let st1 = console_error st ShuttingDown;
          st2 = foldl (kill_in_loop (run_cleanup stack os) os) st1 [0..<length (processes st1)]
      in if exit_code st2 \<noteq> None then (None, st2)
         else process_exit (run_cleanup stack os) st2)"

text \<open>The actions since a given point of the supervisor's history.\<close>

definition actions_since :: "supervisor \<Rightarrow> supervisor \<Rightarrow> sup_action list" where
  "actions_since before after = drop (length (actions before)) (actions after)"

subsection \<open>What a teardown keeps true\<close>

text \<open>
  For the proofs. \<open>base\<close> is the length of the supervisor's history when the teardown
  started and \<open>P\<close> the tracked process ids. During a teardown the tracked children
  stay the same, a handle is marked as killed only after a call of \<open>kill\<close> on it,
  and the process ends with code 0 or not at all. A state continues another when its
  history extends the other's and the flag \<open>exiting\<close> is not taken back. The tracked
  children are covered when \<open>kill\<close> has been called on each since the start. A nested
  call is well behaved when it keeps all this and has covered the children if it ended
  the process.
\<close>

definition attempts_since :: "nat \<Rightarrow> supervisor \<Rightarrow> nat set" where
  "attempts_since base st = set (kill_attempts (drop base (actions st)))"

definition teardown_inv :: "nat \<Rightarrow> nat list \<Rightarrow> supervisor \<Rightarrow> bool" where
  "teardown_inv base P st =
     (base \<le> length (actions st)
      \<and> map (\<lambda>p. pid (process p)) (processes st) = P
      \<and> list_all (\<lambda>p. \<not> killed (process p) \<or> pid (process p) \<in> attempts_since base st)
           (processes st)
      \<and> (exit_code st = None \<or> exit_code st = Some 0))"

definition covered :: "nat \<Rightarrow> nat list \<Rightarrow> supervisor \<Rightarrow> bool" where
  "covered base P st = (set P \<subseteq> attempts_since base st)"

definition continues :: "supervisor \<Rightarrow> supervisor \<Rightarrow> bool" where
  "continues st st' =
     ((\<exists>xs. actions st' = actions st @ xs) \<and> (exiting st \<longrightarrow> exiting st'))"

definition well_nested ::
  "nat \<Rightarrow> nat list \<Rightarrow> (supervisor \<Rightarrow> js_error option \<times> supervisor) \<Rightarrow> bool" where
  "well_nested base P nested =
     (\<forall>st. teardown_inv base P st \<longrightarrow> exit_code st = None \<longrightarrow>
        teardown_inv base P (snd (nested st)) \<and> continues st (snd (nested st))
        \<and> (exit_code (snd (nested st)) \<noteq> None \<longrightarrow> covered base P (snd (nested st))))"

section \<open>Properties of the port prober\<close>

text \<open>
  For a port that \<open>listen\<close> accepts, the probe follows the policy: true when the bind
  succeeds, and the probing server has then been closed again; false exactly when the
  bind fails with the error code \<open>EADDRINUSE\<close>; true for a bind that fails in any
  other way (another code, or none).
\<close>

lemma isPortAvailable_policy:
  assumes "is_legal_port port"
  shows "(net port = Listening \<longrightarrow>
      isPortAvailable net port = (Inr True, [CreateServer, Listen port, CloseServer]))
   \<and> (fst (isPortAvailable net port) = Inr False \<longleftrightarrow> net port = ListenError (Some ''EADDRINUSE''))
   \<and> (net port = ListenError code \<longrightarrow> code \<noteq> Some ''EADDRINUSE'' \<longrightarrow>
      isPortAvailable net port = (Inr True, [CreateServer, Listen port]))"
  using assms by (cases "net port") (auto simp: isPortAvailable_def)

lemma isPortAvailable_rejects:
  "\<not> is_legal_port port \<Longrightarrow>
     isPortAvailable net port = (Inl (RangeError ''ERR_SOCKET_BAD_PORT''), [CreateServer, Listen port])"
  by (simp add: isPortAvailable_def)

text \<open>
  C3. The probe is meant to answer true for every bind failure other than
  \<open>EADDRINUSE\<close>, the invalid port among them. For a port that is no integer from 0
  to 65535, such as 70000, -1 or \<open>NaN\<close>, \<open>server.listen(port)\<close> throws inside the
  promise's executor before any bind is tried; nothing catches it, and the promise is
  rejected with the \<open>RangeError\<close>. The probe answers neither true nor false, whatever
  the network would have said.
\<close>

theorem isPortAvailable_rejects_invalid_port:
  "isPortAvailable net (Num 70000)
     = (Inl (RangeError ''ERR_SOCKET_BAD_PORT''), [CreateServer, Listen (Num 70000)])
   \<and> isPortAvailable net (Num (- 1))
     = (Inl (RangeError ''ERR_SOCKET_BAD_PORT''), [CreateServer, Listen (Num (- 1))])
   \<and> isPortAvailable net NaN
     = (Inl (RangeError ''ERR_SOCKET_BAD_PORT''), [CreateServer, Listen NaN])
   \<and> fst (isPortAvailable net (Num 70000)) \<noteq> Inr True"
  by (simp add: isPortAvailable_def is_legal_port_def)


text \<open>
  For a port that \<open>connect\<close> does not accept the first attempt throws, and the call is
  rejected after that one attempt; with no attempt allowed it returns false.
\<close>

lemma wait_loop_bad_port:
  assumes "\<not> is_legal_port port"
  shows "wait_loop peer port (Num (real m)) i 0 [] =
     Some (if m = 0 then (Inr False, [])
           else (Inl (RangeError ''ERR_SOCKET_BAD_PORT''), [CanConnect port]))"
  using assms
  by (subst wait_loop.simps) (simp add: counter_less_def canConnectToPort_def)

lemma waitForServerOnPort_bad_port:
  assumes "\<not> is_legal_port port"
  shows "waitForServerOnPort peer port (Some (Num (real m))) (Some i) =
     Some (if m = 0 then (Inr False, [])
           else (Inl (RangeError ''ERR_SOCKET_BAD_PORT''), [CanConnect port]))"
  using wait_loop_bad_port [OF assms, of peer m i]
  by (simp add: waitForServerOnPort_def default_arg_def)







section \<open>Properties of the control server's side channel\<close>

text \<open>
  C2. For every port argument, also an omitted one, the constructor of
  \<open>WebSocketServer\<close> throws a \<open>TypeError\<close>: it sets \<open>wss\<close> to \<open>null\<close> and then calls
  \<open>on\<close> on it. No call of the constructor yields an instance, so no instance exists
  on which \<open>init\<close>, \<open>sendMessage\<close> or \<open>close\<close> could be called.
\<close>

theorem WebSocketServer_constructor_throws:
  "WebSocketServer_constructor port = Inl TypeError
   \<and> (\<nexists>this. WebSocketServer_constructor port = Inr this)"
  by (simp add: WebSocketServer_constructor_def register_listeners_def wss_on_def)

text \<open>
  What \<open>init\<close> returns, on any instance: true exactly when the probe resolves with
  true and the server object is created, and the instance then holds the new handle
  with its three listeners; false, with the instance as it was, when the probe resolves
  with false; and always a boolean, never an exception. The later end of the bind does
  not change the value returned.
\<close>

lemma init_outcome:
  "(fst (init net create this) = Inr True \<longleftrightarrow>
      fst (isPortAvailable net (ws_port this)) = Inr True \<and> (\<exists>h. create (ws_port this) = Inr h))
   \<and> (fst (isPortAvailable net (ws_port this)) = Inr True \<longrightarrow> create (ws_port this) = Inr h \<longrightarrow>
        init net create this =
          (Inr True,
           this\<lparr>wss := Some (h\<lparr>listeners := listeners h @ [''connection'', ''listening'', ''error'']\<rparr>)\<rparr>))
   \<and> (fst (isPortAvailable net (ws_port this)) = Inr False \<longrightarrow>
        init net create this = (Inr False, this))
   \<and> (\<exists>b. fst (init net create this) = Inr b)"
  by (cases "create (ws_port this)"; cases "fst (isPortAvailable net (ws_port this))")
     (auto simp: init_def init_try_def register_listeners_def wss_on_def Let_def)

lemma init_and_bind_value:
  "fst (init_and_bind net create bind this) = fst (init net create this)"
  by (cases "init net create this")
     (auto simp: init_and_bind_def split: sum.splits bool.splits)


section \<open>Properties of the graph server\<close>

lemma map_of_put_prop: "map_of (put_prop k v ps) = (map_of ps)(k \<mapsto> v)"
  by (induction ps) (auto simp: fun_eq_iff)

lemma keys_put_prop:
  "map fst (put_prop k v ps) = (if k \<in> set (map fst ps) then map fst ps else map fst ps @ [k])"
  by (induction ps) auto

lemma put_prop_keeps_ids:
  "list_all (\<lambda>p. f (snd p) = fst p) ps \<Longrightarrow> f v = k
     \<Longrightarrow> list_all (\<lambda>p. f (snd p) = fst p) (put_prop k v ps)"
  by (induction ps) auto

lemma mset_own_property_order: "mset (own_property_order ps) = mset ps"
  by (simp add: own_property_order_def)

lemma set_own_property_order: "set (own_property_order ps) = set ps"
  using mset_own_property_order [of ps] by (metis set_mset_mset)

lemma set_own_keys: "set (own_keys obj) = set (map fst (own_props obj))"
  by (simp add: own_keys_def set_own_property_order)

lemma set_Object_values: "set (Object_values obj) = set (map snd (own_props obj))"
  by (simp add: Object_values_def set_own_property_order)

lemma mset_Object_values: "mset (Object_values obj) = mset (map snd (own_props obj))"
  by (simp add: Object_values_def mset_own_property_order)

lemma graph_inv_init: "graph_inv (VisualizationServer_constructor port)"
  by (simp add: graph_inv_def VisualizationServer_constructor_def empty_object_def)

lemma graph_inv_on_connection: "graph_inv this \<Longrightarrow> graph_inv (on_connection this socket)"
  by (simp add: graph_inv_def on_connection_def)

lemma atoms_updateAtom:
  "atoms (updateAtom this a) = obj_assign (atoms this) (atomId a) a"
  by (simp add: updateAtom_def Let_def)

lemma atomOrder_updateAtom:
  "atomOrder (updateAtom this a) =
     (if atomId a \<in> set (atomOrder this) then atomOrder this else atomOrder this @ [atomId a])"
  by (simp add: updateAtom_def Let_def)

lemma graph_inv_updateAtom:
  assumes "graph_inv this"
  shows "graph_inv (updateAtom this a)"
proof (cases "atomId a = ''__proto__''")
  case True
  with assms show ?thesis
    by (simp add: graph_inv_def atoms_updateAtom atomOrder_updateAtom obj_assign_def)
next
  case False
  from assms have keys: "set (map fst (own_props (atoms this))) = set (atomOrder this) - {''__proto__''}"
    by (auto simp: graph_inv_def)
  with False have "atomId a \<in> set (map fst (own_props (atoms this))) \<longleftrightarrow> atomId a \<in> set (atomOrder this)"
    by auto
  with assms False show ?thesis
    by (simp add: graph_inv_def atoms_updateAtom atomOrder_updateAtom obj_assign_def
        keys_put_prop put_prop_keeps_ids del: set_map)
qed

lemma graph_inv_vs_step: "graph_inv this \<Longrightarrow> graph_inv (vs_step this e)"
  by (cases e) (simp_all add: graph_inv_updateAtom graph_inv_on_connection)

lemma graph_inv_foldl: "graph_inv this \<Longrightarrow> graph_inv (foldl vs_step this evs)"
  by (induction evs arbitrary: this) (simp_all add: graph_inv_vs_step)

lemma graph_inv_vs_run: "graph_inv (vs_run port evs)"
  by (simp add: vs_run_def graph_inv_foldl graph_inv_init)

lemma graph_inv_own_key:
  assumes "graph_inv this" and "own_lookup (atoms this) k = Some old"
  shows "k \<noteq> ''__proto__'' \<and> k \<in> set (atomOrder this) \<and> distinct (map fst (own_props (atoms this)))"
proof -
  from assms(2) have "(k, old) \<in> set (own_props (atoms this))"
    by (simp add: own_lookup_def map_of_SomeD)
  then have "k \<in> set (map fst (own_props (atoms this)))"
    by force
  with assms(1) show ?thesis
    by (auto simp: graph_inv_def)
qed

lemmas vs_eval =
  vs_run_def publish_all_def VisualizationServer_constructor_def updateAtom_def on_connection_def
  obj_assign_def empty_object_def io_emit_def socket_emit_def api_atoms_def inbox_def
  Object_values_def own_keys_def own_property_order_def own_lookup_def is_array_index_def
  is_digit_def example_atom_def order_matches_atoms_def Let_def

text \<open>
  C4. In every state a server can reach, publishing an atom whose id is already a key
  of \<open>atoms\<close> replaces the stored atom by the new one as a whole (content,
  dependencies and every other field), leaves every other key as it was, and leaves
  the order, hence its length, unchanged; the snapshot afterwards holds the new atom
  and no other atom with that id.
\<close>

theorem republish_replaces_atom:
  assumes "this = vs_run port evs"
    and "own_lookup (atoms this) (atomId a) = Some old"
  shows "own_lookup (atoms (updateAtom this a)) (atomId a) = Some a
    \<and> (\<forall>k. k \<noteq> atomId a \<longrightarrow>
          own_lookup (atoms (updateAtom this a)) k = own_lookup (atoms this) k)
    \<and> atomOrder (updateAtom this a) = atomOrder this
    \<and> length (atomOrder (updateAtom this a)) = length (atomOrder this)
    \<and> filter (\<lambda>b. atomId b = atomId a) (snap_atoms (api_atoms (updateAtom this a))) = [a]"
proof -
  from assms(1) have inv: "graph_inv this"
    by (simp add: graph_inv_vs_run)
  from graph_inv_own_key [OF inv assms(2)]
  have np: "atomId a \<noteq> ''__proto__''" and ord: "atomId a \<in> set (atomOrder this)"
    by simp_all
  have inv': "graph_inv (updateAtom this a)"
    using inv by (rule graph_inv_updateAtom)
  have look: "own_lookup (atoms (updateAtom this a)) = (own_lookup (atoms this))(atomId a \<mapsto> a)"
    using np by (simp add: own_lookup_def atoms_updateAtom obj_assign_def map_of_put_prop fun_eq_iff)
  have order: "atomOrder (updateAtom this a) = atomOrder this"
    using ord by (simp add: atomOrder_updateAtom)
  let ?ps = "own_props (atoms (updateAtom this a))"
  have dist: "distinct (map fst ?ps)" and ids: "list_all (\<lambda>p. atomId (snd p) = fst p) ?ps"
    using inv' by (simp_all add: graph_inv_def)
  have mem: "(atomId a, a) \<in> set ?ps"
    using look dist by (metis own_lookup_def fun_upd_same map_of_SomeD)
  have "filter (\<lambda>b. atomId b = atomId a) (map snd ps) = [a]"
    if "distinct (map fst ps)" "list_all (\<lambda>p. atomId (snd p) = fst p) ps" "(atomId a, a) \<in> set ps"
    for ps :: "(string \<times> atom) list"
    using that
  proof (induction ps)
    case Nil
    then show ?case by simp
  next
    case (Cons p ps)
    show ?case
    proof (cases "p = (atomId a, a)")
      case True
      with Cons.prems have "\<forall>q \<in> set ps. atomId (snd q) \<noteq> atomId a"
        by (force simp: list_all_iff)
      then have "filter (\<lambda>b. atomId b = atomId a) (map snd ps) = []"
        by (auto simp: filter_empty_conv)
      with True show ?thesis by simp
    next
      case False
      with Cons.prems have "(atomId a, a) \<in> set ps" by auto
      moreover from this Cons.prems have "fst p \<noteq> atomId a" by force
      ultimately show ?thesis using Cons by auto
    qed
  qed
  note one = this [OF dist ids mem]
  have "mset (filter (\<lambda>b. atomId b = atomId a) (Object_values (atoms (updateAtom this a))))
      = mset (filter (\<lambda>b. atomId b = atomId a) (map snd ?ps))"
    by (simp add: mset_Object_values del: mset_map)
  with one have "mset (filter (\<lambda>b. atomId b = atomId a) (Object_values (atoms (updateAtom this a)))) = {#a#}"
    by simp
  then have "filter (\<lambda>b. atomId b = atomId a) (Object_values (atoms (updateAtom this a))) = [a]"
    by (simp only: mset_single_iff)
  then have snap: "filter (\<lambda>b. atomId b = atomId a) (snap_atoms (api_atoms (updateAtom this a))) = [a]"
    by (simp add: api_atoms_def)
  from look order snap show ?thesis by simp
qed

theorem republish_replaces_atom_witness:
  "own_lookup (atoms (vs_run None [Publish (example_atom ''a1'' ''first'')])) ''a1''
     = Some (example_atom ''a1'' ''first'')
   \<and> own_lookup (atoms (updateAtom (vs_run None [Publish (example_atom ''a1'' ''first'')])
         (example_atom ''a1'' ''second''))) ''a1'' = Some (example_atom ''a1'' ''second'')
   \<and> atomOrder (updateAtom (vs_run None [Publish (example_atom ''a1'' ''first'')])
         (example_atom ''a1'' ''second'')) = [''a1'']
   \<and> snap_atoms (api_atoms (updateAtom (vs_run None [Publish (example_atom ''a1'' ''first'')])
         (example_atom ''a1'' ''second''))) = [example_atom ''a1'' ''second'']"
proof -
  have h: "own_lookup (atoms (vs_run None [Publish (example_atom ''a1'' ''first'')]))
      (atomId (example_atom ''a1'' ''second'')) = Some (example_atom ''a1'' ''first'')"
    by (simp add: vs_eval)
  show ?thesis
    using h republish_replaces_atom [OF refl h]
    by (simp add: vs_eval)
qed

text \<open>
  Each publish leaves the order as it is or appends the one new id at its end. In a
  history that never publishes the id \<open>__proto__\<close> the order lists exactly the keys
  of \<open>atoms\<close>, each once, and after distinct ids have been published the snapshot
  holds exactly the published atoms, with their ids in the order of publication.
\<close>

lemma order_append_only:
  "atomOrder (updateAtom this a) = atomOrder this
   \<or> (atomId a \<notin> set (atomOrder this) \<and> atomOrder (updateAtom this a) = atomOrder this @ [atomId a])"
  by (simp add: atomOrder_updateAtom)

lemma proto_free_order:
  "proto_free evs \<Longrightarrow> ''__proto__'' \<notin> set (atomOrder this)
     \<Longrightarrow> ''__proto__'' \<notin> set (atomOrder (foldl vs_step this evs))"
proof (induction evs arbitrary: this)
  case Nil
  then show ?case by simp
next
  case (Cons e evs)
  from Cons.prems have "''__proto__'' \<notin> set (atomOrder (vs_step this e))"
    by (cases e) (auto simp: proto_free_def atomOrder_updateAtom on_connection_def)
  with Cons show ?case by (simp add: proto_free_def)
qed

lemma order_matches_atoms_proto_free:
  assumes "proto_free evs"
  shows "order_matches_atoms (vs_run port evs)"
proof -
  have "''__proto__'' \<notin> set (atomOrder (vs_run port evs))"
    unfolding vs_run_def using assms
    by (rule proto_free_order) (simp add: VisualizationServer_constructor_def)
  then have "filter (\<lambda>k. k \<noteq> ''__proto__'') (atomOrder (vs_run port evs)) = atomOrder (vs_run port evs)"
    by (auto simp: filter_id_conv)
  with graph_inv_vs_run [of port evs] show ?thesis
    by (simp add: order_matches_atoms_def graph_inv_def set_own_keys del: set_map)
qed

lemma put_prop_fresh: "k \<notin> set (map fst ps) \<Longrightarrow> put_prop k v ps = ps @ [(k, v)]"
  by (induction ps) auto

lemma publish_all_fresh:
  assumes "set (map fst (own_props (atoms this))) \<subseteq> set (atomOrder this)"
    and "distinct (map atomId as)"
    and "set (map atomId as) \<inter> set (atomOrder this) = {}"
    and "''__proto__'' \<notin> set (map atomId as)"
  shows "own_props (atoms (publish_all this as)) = own_props (atoms this) @ map (\<lambda>a. (atomId a, a)) as
    \<and> atomOrder (publish_all this as) = atomOrder this @ map atomId as"
  using assms
proof (induction as arbitrary: this)
  case Nil
  then show ?case by (simp add: publish_all_def)
next
  case (Cons a as)
  let ?next = "updateAtom this a"
  from Cons.prems have fresh: "atomId a \<notin> set (atomOrder this)" and np: "atomId a \<noteq> ''__proto__''"
    by auto
  with Cons.prems(1) have nk: "atomId a \<notin> set (map fst (own_props (atoms this)))"
    by blast
  have props: "own_props (atoms ?next) = own_props (atoms this) @ [(atomId a, a)]"
    using np nk by (simp add: atoms_updateAtom obj_assign_def put_prop_fresh del: set_map)
  have order: "atomOrder ?next = atomOrder this @ [atomId a]"
    using fresh by (simp add: atomOrder_updateAtom)
  have "own_props (atoms (publish_all ?next as)) = own_props (atoms ?next) @ map (\<lambda>a. (atomId a, a)) as
    \<and> atomOrder (publish_all ?next as) = atomOrder ?next @ map atomId as"
  proof (rule Cons.IH)
    show "set (map fst (own_props (atoms ?next))) \<subseteq> set (atomOrder ?next)"
      using Cons.prems(1) by (auto simp: props order)
    show "distinct (map atomId as)" using Cons.prems(2) by simp
    show "set (map atomId as) \<inter> set (atomOrder ?next) = {}"
      using Cons.prems(2,3) by (auto simp: order)
    show "''__proto__'' \<notin> set (map atomId as)" using Cons.prems(4) by simp
  qed
  then show ?case
    by (simp add: publish_all_def props order)
qed

lemma snapshot_complete_proto_free:
  assumes "distinct (map atomId as)" and "''__proto__'' \<notin> set (map atomId as)"
  shows "mset (snap_atoms (api_atoms (publish_all (VisualizationServer_constructor port) as))) = mset as
    \<and> snap_atomOrder (api_atoms (publish_all (VisualizationServer_constructor port) as)) = map atomId as"
proof -
  have "own_props (atoms (publish_all (VisualizationServer_constructor port) as))
          = own_props (atoms (VisualizationServer_constructor port)) @ map (\<lambda>a. (atomId a, a)) as
      \<and> atomOrder (publish_all (VisualizationServer_constructor port) as)
          = atomOrder (VisualizationServer_constructor port) @ map atomId as"
    using assms
    by (intro publish_all_fresh) (simp_all add: VisualizationServer_constructor_def empty_object_def)
  then show ?thesis
    by (simp add: api_atoms_def mset_Object_values VisualizationServer_constructor_def
        empty_object_def comp_def)
qed

text \<open>
  C5. The order is meant to list every key of \<open>atoms\<close> exactly once and only those
  keys. Publishing an atom with the id \<open>__proto__\<close> to a new server breaks this:
  the assignment \<open>this.atoms[atom.atomId] = atom\<close> replaces the prototype of
  \<open>atoms\<close> and stores no key, while \<open>includes\<close> does not find the id and \<open>push\<close>
  appends it. The order then holds an id that is no key of \<open>atoms\<close>.
\<close>

theorem publish_proto_breaks_order_invariant:
  "atomOrder (vs_run None [Publish (example_atom ''__proto__'' ''x'')]) = [''__proto__'']
   \<and> own_keys (atoms (vs_run None [Publish (example_atom ''__proto__'' ''x'')])) = []
   \<and> \<not> order_matches_atoms (vs_run None [Publish (example_atom ''__proto__'' ''x'')])"
  by (simp add: vs_eval)

text \<open>
  C6. After the two atoms with the distinct ids \<open>a1\<close> and \<open>__proto__\<close> have been
  published to a new server, the response of \<open>/api/atoms\<close> and the snapshot sent to
  an observer that connects hold one atom, not two, and an order of length two.
\<close>

theorem snapshot_misses_proto_atom:
  "api_atoms (publish_all (VisualizationServer_constructor None)
       [example_atom ''a1'' ''x'', example_atom ''__proto__'' ''y''])
     = \<lparr>snap_atoms = [example_atom ''a1'' ''x''], snap_atomOrder = [''a1'', ''__proto__'']\<rparr>
   \<and> inbox (on_connection (publish_all (VisualizationServer_constructor None)
       [example_atom ''a1'' ''x'', example_atom ''__proto__'' ''y'']) 1) 1
     = [AtomsUpdate \<lparr>snap_atoms = [example_atom ''a1'' ''x''],
                     snap_atomOrder = [''a1'', ''__proto__'']\<rparr>]"
  by (simp add: vs_eval)

lemma put_prop_idem: "put_prop k v (put_prop k v ps) = put_prop k v ps"
  by (induction ps) auto

lemma inbox_append:
  "map snd (filter (\<lambda>d. fst d = c) (map (\<lambda>c. (c, m)) cs)) = replicate (count_list cs c) m"
  by (induction cs) auto

lemma count_list_distinct: "distinct cs \<Longrightarrow> c \<in> set cs \<Longrightarrow> count_list cs c = 1"
  by (induction cs) auto

text \<open>
  C7. A publish hands the transport two rounds of messages and nothing else: first
  \<open>atom-update\<close> with the published atom to every connected socket, then
  \<open>atoms-order\<close> with the whole order as it is after the publish to every connected
  socket. The set of connected sockets does not change. So a connected observer
  (sockets are distinct) receives exactly these two messages, in this order, and a
  socket that is not connected receives nothing. On the observer's page, handling
  either message a second time changes nothing.
\<close>

theorem updateAtom_two_notifications:
  "delivered (io (updateAtom this a)) =
       delivered (io this)
       @ map (\<lambda>c. (c, AtomUpdate a)) (connected (io this))
       @ map (\<lambda>c. (c, AtomsOrder (atomOrder (updateAtom this a)))) (connected (io this))
   \<and> connected (io (updateAtom this a)) = connected (io this)
   \<and> (c \<in> set (connected (io this)) \<longrightarrow> distinct (connected (io this)) \<longrightarrow>
        inbox (updateAtom this a) c =
          inbox this c @ [AtomUpdate a, AtomsOrder (atomOrder (updateAtom this a))])
   \<and> (c \<notin> set (connected (io this)) \<longrightarrow> inbox (updateAtom this a) c = inbox this c)
   \<and> client_on (client_on cl (AtomUpdate a)) (AtomUpdate a) = client_on cl (AtomUpdate a)
   \<and> client_on (client_on cl (AtomsOrder order)) (AtomsOrder order) = client_on cl (AtomsOrder order)"
proof -
  have del: "delivered (io (updateAtom this a)) =
       delivered (io this)
       @ map (\<lambda>c. (c, AtomUpdate a)) (connected (io this))
       @ map (\<lambda>c. (c, AtomsOrder (atomOrder (updateAtom this a)))) (connected (io this))"
    and con: "connected (io (updateAtom this a)) = connected (io this)"
    by (simp_all add: updateAtom_def io_emit_def Let_def)
  have inb: "inbox (updateAtom this a) c =
      inbox this c @ replicate (count_list (connected (io this)) c) (AtomUpdate a)
      @ replicate (count_list (connected (io this)) c) (AtomsOrder (atomOrder (updateAtom this a)))"
    unfolding inbox_def del by (simp add: inbox_append)
  have one: "count_list (connected (io this)) c = 1"
    if "c \<in> set (connected (io this))" "distinct (connected (io this))"
    using that by (simp add: count_list_distinct)
  have none: "count_list (connected (io this)) c = 0" if "c \<notin> set (connected (io this))"
    using that by simp
  have idem: "client_on (client_on cl (AtomUpdate a)) (AtomUpdate a) = client_on cl (AtomUpdate a)"
    by (simp add: obj_assign_def put_prop_idem)
  show ?thesis
    using del con inb one none idem by simp
qed

theorem updateAtom_two_notifications_witness:
  "1 \<in> set (connected (io (vs_run None [Connection 1, Connection 2])))
   \<and> distinct (connected (io (vs_run None [Connection 1, Connection 2])))
   \<and> inbox (updateAtom (vs_run None [Connection 1, Connection 2]) (example_atom ''a1'' ''x'')) 1
       = [AtomsUpdate \<lparr>snap_atoms = [], snap_atomOrder = []\<rparr>,
          AtomUpdate (example_atom ''a1'' ''x''), AtomsOrder [''a1'']]
   \<and> 3 \<notin> set (connected (io (vs_run None [Connection 1, Connection 2])))
   \<and> inbox (updateAtom (vs_run None [Connection 1, Connection 2]) (example_atom ''a1'' ''x'')) 3 = []"
  using updateAtom_two_notifications [of "vs_run None [Connection 1, Connection 2]"
      "example_atom ''a1'' ''x''" 1]
    updateAtom_two_notifications [of "vs_run None [Connection 1, Connection 2]"
      "example_atom ''a1'' ''x''" 3]
  by (simp add: vs_eval)

section \<open>Properties of the supervisor\<close>

lemma kill_attempts_simps [simp]:
  "kill_attempts [] = []"
  "kill_attempts (Kill p # acts) = p # kill_attempts acts"
  "kill_attempts (ConsoleError l # acts) = kill_attempts acts"
  "kill_attempts (ProcessExit n # acts) = kill_attempts acts"
  "kill_attempts (Delay n # acts) = kill_attempts acts"
  by (simp_all add: kill_attempts_def)

lemma kill_attempts_append [simp]:
  "kill_attempts (xs @ ys) = kill_attempts xs @ kill_attempts ys"
  by (simp add: kill_attempts_def)



lemma pid_kill_child: "pid (process (fst (kill_child os p))) = pid (process p)"
  by (cases "os (pid (process p))") (simp_all add: kill_child_def)


text \<open>
  Launching keeps what a teardown starts from: no handle is marked as killed, since
  \<open>kill\<close> is called nowhere but in \<open>cleanup\<close>, and the process has not ended.
\<close>

lemma launch_keeps_unkilled:
  assumes "list_all (\<lambda>p. \<not> killed (process p)) (processes st)" and "exit_code st = None"
  shows "list_all (\<lambda>p. \<not> killed (process p)) (processes (snd (launchMcpServer fork st)))"
    and "exit_code (snd (launchMcpServer fork st)) = None"
    and "list_all (\<lambda>p. \<not> killed (process p))
           (processes (snd (launchVisualizationServer net fork port st)))"
    and "exit_code (snd (launchVisualizationServer net fork port st)) = None"
  using assms
  by (auto simp: launchMcpServer_def launchVisualizationServer_def console_error_def Let_def
      split: fork_result.splits sum.splits)

lemma launched_example:
  "snd (launchVisualizationServer (\<lambda>p. Listening)
      (\<lambda>path. if path = ''./index.js'' then Forked 7 else Forked 8) (Num 3000)
      (snd (launchMcpServer (\<lambda>path. if path = ''./index.js'' then Forked 7 else Forked 8)
         supervisor_init)))
   = \<lparr>processes = [\<lparr>process = \<lparr>pid = 7, killed = False, on_error = LogAndCleanup\<rparr>,
                     name = ''MCP server''\<rparr>,
                  \<lparr>process = \<lparr>pid = 8, killed = False, on_error = LogOnly\<rparr>,
                     name = ''Visualization server''\<rparr>],
      actions = [Delay 1000], exiting = False, exit_code = None\<rparr>"
  by (simp add: launchVisualizationServer_def launchMcpServer_def supervisor_init_def
      isPortAvailable_def is_legal_port_def Let_def)

text \<open>
  The invariants of a teardown, through the loop over the tracked children, the call
  of \<open>process.exit\<close> and the nested runs.
\<close>

lemma continues_refl: "continues st st"
  by (simp add: continues_def)

lemma continues_trans: "continues a b \<Longrightarrow> continues b c \<Longrightarrow> continues a c"
  by (auto simp: continues_def)

lemma attempts_since_mono:
  assumes "continues st st'" and "base \<le> length (actions st)"
  shows "attempts_since base st \<subseteq> attempts_since base st'"
  using assms by (auto simp: continues_def attempts_since_def)

lemma covered_mono:
  "covered base P st \<Longrightarrow> continues st st' \<Longrightarrow> base \<le> length (actions st)
     \<Longrightarrow> covered base P st'"
  using attempts_since_mono [of st st' base] by (auto simp: covered_def)

lemma teardown_inv_append:
  assumes "teardown_inv base P st"
  shows "teardown_inv base P (st\<lparr>actions := actions st @ xs\<rparr>)"
    and "continues st (st\<lparr>actions := actions st @ xs\<rparr>)"
  using assms
  by (auto simp: teardown_inv_def continues_def attempts_since_def list_all_iff)

lemma teardown_inv_console_error:
  assumes "teardown_inv base P st"
  shows "teardown_inv base P (console_error st l)" and "continues st (console_error st l)"
  using teardown_inv_append [OF assms, of "[ConsoleError l]"]
  by (simp_all add: console_error_def)

lemma teardown_inv_nth:
  assumes "teardown_inv base P st" and "i < length P"
  shows "pid (process (processes st ! i)) = P ! i"
    and "killed (process (processes st ! i)) \<Longrightarrow> P ! i \<in> attempts_since base st"
    and "i < length (processes st)"
proof -
  from assms have len: "i < length (processes st)"
    by (auto simp: teardown_inv_def)
  then show "i < length (processes st)" .
  from assms len show pidi: "pid (process (processes st ! i)) = P ! i"
    by (auto simp: teardown_inv_def)
  assume "killed (process (processes st ! i))"
  moreover from assms(1) len
  have "\<not> killed (process (processes st ! i))
      \<or> pid (process (processes st ! i)) \<in> attempts_since base st"
    by (auto simp: teardown_inv_def list_all_length)
  ultimately show "P ! i \<in> attempts_since base st"
    using pidi by simp
qed

lemma attempts_since_Kill:
  "base \<le> length (actions st) \<Longrightarrow>
     attempts_since base (st\<lparr>actions := actions st @ Kill q # xs\<rparr>)
       = insert q (attempts_since base st \<union> set (kill_attempts xs))"
  by (auto simp: attempts_since_def)


lemma teardown_inv_kill:
  assumes "teardown_inv base P st" and "i < length P" and "pid (process p') = P ! i"
  shows "teardown_inv base P
           (st\<lparr>processes := (processes st)[i := p'], actions := actions st @ Kill (P ! i) # xs\<rparr>)"
proof -
  from assms(1) have pids: "map (\<lambda>p. pid (process p)) (processes st) = P"
    and base: "base \<le> length (actions st)"
    and old: "\<forall>p \<in> set (processes st).
        \<not> killed (process p) \<or> pid (process p) \<in> attempts_since base st"
    and code: "exit_code st = None \<or> exit_code st = Some 0"
    by (auto simp: teardown_inv_def list_all_iff)
  let ?st = "st\<lparr>processes := (processes st)[i := p'], actions := actions st @ Kill (P ! i) # xs\<rparr>"
  have att: "attempts_since base ?st = insert (P ! i) (attempts_since base st \<union> set (kill_attempts xs))"
    using base by (auto simp: attempts_since_def)
  have "map (\<lambda>p. pid (process p)) ((processes st)[i := p']) = P [i := P ! i]"
    using pids assms(3) by (simp add: map_update)
  then have pids': "map (\<lambda>p. pid (process p)) (processes ?st) = P"
    by simp
  have new: "\<forall>p \<in> set (processes ?st).
      \<not> killed (process p) \<or> pid (process p) \<in> attempts_since base ?st"
  proof
    fix p assume "p \<in> set (processes ?st)"
    then have "p = p' \<or> p \<in> set (processes st)"
      using set_update_subset_insert [of "processes st" i p'] by auto
    with old assms(3) show "\<not> killed (process p) \<or> pid (process p) \<in> attempts_since base ?st"
      unfolding att by auto
  qed
  from base pids' new code show ?thesis
    by (simp add: teardown_inv_def list_all_iff)
qed

lemma snd_kill_child_unkilled:
  "\<not> killed (process p) \<Longrightarrow>
     \<exists>l. snd (kill_child os p) = [Kill (pid (process p)), ConsoleError l]"
  by (cases "os (pid (process p))") (simp_all add: kill_child_def)

lemma kill_in_loop_step:
  assumes N: "well_nested base P nested" and inv: "teardown_inv base P st" and i: "i < length P"
  shows "teardown_inv base P (kill_in_loop nested os st i)
    \<and> continues st (kill_in_loop nested os st i)
    \<and> (exit_code (kill_in_loop nested os st i) \<noteq> None \<longrightarrow>
         exit_code st \<noteq> None \<or> covered base P (kill_in_loop nested os st i))
    \<and> (exit_code (kill_in_loop nested os st i) = None \<longrightarrow>
         P ! i \<in> attempts_since base (kill_in_loop nested os st i))"
proof (cases "exit_code st \<noteq> None")
  case True
  then have "kill_in_loop nested os st i = st"
    by (simp add: kill_in_loop_def)
  with True inv show ?thesis
    by (auto simp: continues_refl)
next
  case False
  then have live: "exit_code st = None" by simp
  define p where "p = processes st ! i"
  note nth = teardown_inv_nth [OF inv i]
  have pidp: "pid (process p) = P ! i"
    using nth(1) by (simp add: p_def)
  from inv have base: "base \<le> length (actions st)"
    by (simp add: teardown_inv_def)
  show ?thesis
  proof (cases "killed (process p)")
    case True
    then have "kill_in_loop nested os st i = st"
      using live by (simp add: kill_in_loop_def p_def Let_def)
    moreover have "P ! i \<in> attempts_since base st"
      using nth(2) True by (simp add: p_def)
    ultimately show ?thesis
      using inv live by (simp add: continues_refl)
  next
    case unkilled: False
    show ?thesis
    proof (cases "os (length (kill_attempts (actions st))) (pid (process p))")
      case (Plain outcome)
      obtain l where acts: "snd (kill_child (\<lambda>q. outcome) p) = [Kill (P ! i), ConsoleError l]"
        using snd_kill_child_unkilled [OF unkilled, of "\<lambda>q. outcome"] pidp by auto
      define st' where "st' = st\<lparr>processes := (processes st)[i := fst (kill_child (\<lambda>q. outcome) p)],
          actions := actions st @ Kill (P ! i) # [ConsoleError l]\<rparr>"
      have eq: "kill_in_loop nested os st i = st'"
        using live unkilled Plain acts
        by (simp add: kill_in_loop_def p_def [symmetric] Let_def st'_def)
      have inv': "teardown_inv base P st'"
        unfolding st'_def
        by (rule teardown_inv_kill [OF inv i]) (simp add: pid_kill_child pidp)
      have cont: "continues st st'"
        by (simp add: continues_def st'_def)
      have "P ! i \<in> attempts_since base st'"
        using base by (simp add: attempts_since_def st'_def)
      moreover have "exit_code st' = None"
        using live by (simp add: st'_def)
      ultimately show ?thesis
        using inv' cont by (simp add: eq)
    next
      case ErrorEvent
      define st1 where "st1 = st\<lparr>actions := actions st @ [Kill (P ! i)]\<rparr>"
      have inv1: "teardown_inv base P st1" and cont1: "continues st st1"
        unfolding st1_def using teardown_inv_append [OF inv] by simp_all
      have att1: "P ! i \<in> attempts_since base st1"
        using base by (simp add: attempts_since_def st1_def)
      have live1: "exit_code st1 = None"
        using live by (simp add: st1_def)
      have base1: "base \<le> length (actions st1)"
        using inv1 by (simp add: teardown_inv_def)
      show ?thesis
      proof (cases "on_error (process p)")
        case LogOnly
        define st' where
          "st' = console_error (console_error st1 VisFailedToStart) (Terminated (name p))"
        have eq: "kill_in_loop nested os st i = st'"
          using live unkilled ErrorEvent LogOnly pidp
          by (simp add: kill_in_loop_def p_def [symmetric] Let_def st'_def st1_def)
        have inv': "teardown_inv base P st'" and cont': "continues st1 st'"
          unfolding st'_def
          using teardown_inv_console_error [OF teardown_inv_console_error(1) [OF inv1]]
            teardown_inv_console_error(2) [OF inv1]
          by (blast intro: continues_trans)+
        have "P ! i \<in> attempts_since base st'"
          using attempts_since_mono [OF cont' base1] att1 by auto
        moreover have "exit_code st' = None"
          using live1 by (simp add: st'_def console_error_def)
        ultimately show ?thesis
          using inv' continues_trans [OF cont1 cont'] by (simp add: eq)
      next
        case LogAndCleanup
        define st2 where "st2 = console_error st1 McpFailedToStart"
        have inv2: "teardown_inv base P st2" and cont2: "continues st1 st2"
          unfolding st2_def using teardown_inv_console_error [OF inv1] by simp_all
        have live2: "exit_code st2 = None"
          using live1 by (simp add: st2_def console_error_def)
        have base2: "base \<le> length (actions st2)"
          using inv2 by (simp add: teardown_inv_def)
        obtain thrown st3 where nested: "nested st2 = (thrown, st3)"
          by (cases "nested st2")
        from N inv2 live2 nested
        have inv3: "teardown_inv base P st3" and cont3: "continues st2 st3"
          and cov3: "exit_code st3 \<noteq> None \<Longrightarrow> covered base P st3"
          unfolding well_nested_def by (metis snd_conv)+
        have base3: "base \<le> length (actions st3)"
          using inv3 by (simp add: teardown_inv_def)
        have cont03: "continues st st3"
          using cont1 cont2 cont3 by (blast intro: continues_trans)
        have att3: "P ! i \<in> attempts_since base st3"
          using attempts_since_mono [OF cont2 base1] attempts_since_mono [OF cont3 base2] att1
          by auto
        show ?thesis
        proof (cases "exit_code st3 \<noteq> None")
          case True
          then have eq: "kill_in_loop nested os st i = st3"
            using live unkilled ErrorEvent LogAndCleanup pidp nested
            by (simp add: kill_in_loop_def p_def [symmetric] Let_def st2_def st1_def)
          show ?thesis
            using inv3 cont03 cov3 True att3 by (simp add: eq)
        next
          case False
          define l where "l = (case thrown of Some e \<Rightarrow> FailedToKill (name p)
            | None \<Rightarrow> Terminated (name p))"
          have eq: "kill_in_loop nested os st i = console_error st3 l"
            using live unkilled ErrorEvent LogAndCleanup pidp nested False
            by (simp add: kill_in_loop_def p_def [symmetric] Let_def st2_def st1_def l_def
                split: option.split)
          have inv4: "teardown_inv base P (console_error st3 l)"
            and cont4: "continues st3 (console_error st3 l)"
            using teardown_inv_console_error [OF inv3] by simp_all
          have "P ! i \<in> attempts_since base (console_error st3 l)"
            using attempts_since_mono [OF cont4 base3] att3 by auto
          moreover have "exit_code (console_error st3 l) = None"
            using False by (simp add: console_error_def)
          ultimately show ?thesis
            using inv4 continues_trans [OF cont03 cont4] by (simp add: eq)
        qed
      qed
    qed
  qed
qed

lemma kill_loop:
  assumes N: "well_nested base P nested"
  shows "teardown_inv base P st \<Longrightarrow> exit_code st = None \<Longrightarrow> n \<le> length P \<Longrightarrow>
     teardown_inv base P (foldl (kill_in_loop nested os) st [0..<n])
     \<and> continues st (foldl (kill_in_loop nested os) st [0..<n])
     \<and> (if exit_code (foldl (kill_in_loop nested os) st [0..<n]) \<noteq> None
         then covered base P (foldl (kill_in_loop nested os) st [0..<n])
         else \<forall>j<n. P ! j \<in> attempts_since base (foldl (kill_in_loop nested os) st [0..<n]))"
proof (induction n)
  case 0
  then show ?case by (simp add: continues_refl)
next
  case (Suc n)
  define mid where "mid = foldl (kill_in_loop nested os) st [0..<n]"
  define fin where "fin = kill_in_loop nested os mid n"
  have fin: "foldl (kill_in_loop nested os) st [0..<Suc n] = fin"
    by (simp add: mid_def fin_def)
  from Suc have inv: "teardown_inv base P mid" and cont: "continues st mid"
    and sofar: "if exit_code mid \<noteq> None then covered base P mid
               else \<forall>j<n. P ! j \<in> attempts_since base mid"
    by (simp_all add: mid_def)
  from Suc.prems have n: "n < length P" by simp
  note step = kill_in_loop_step [OF N inv n, of os, folded fin_def]
  from inv have base: "base \<le> length (actions mid)"
    by (simp add: teardown_inv_def)
  from step have contf: "continues mid fin" by simp
  have "if exit_code fin \<noteq> None then covered base P fin
        else \<forall>j<Suc n. P ! j \<in> attempts_since base fin"
  proof (cases "exit_code fin \<noteq> None")
    case True
    show ?thesis
    proof (cases "exit_code mid \<noteq> None")
      case True
      with sofar have "covered base P mid" by simp
      then have "covered base P fin"
        using contf base by (rule covered_mono)
      with \<open>exit_code fin \<noteq> None\<close> show ?thesis by simp
    next
      case False
      with step True show ?thesis by auto
    qed
  next
    case False
    have live: "exit_code mid = None"
    proof (rule ccontr)
      assume "exit_code mid \<noteq> None"
      then have "fin = mid"
        by (simp add: fin_def kill_in_loop_def)
      with False \<open>exit_code mid \<noteq> None\<close> show False by simp
    qed
    from step False have new: "P ! n \<in> attempts_since base fin"
      by simp
    from live sofar have "\<forall>j<n. P ! j \<in> attempts_since base mid" by simp
    moreover have "attempts_since base mid \<subseteq> attempts_since base fin"
      using contf base by (rule attempts_since_mono)
    ultimately have "\<forall>j<Suc n. P ! j \<in> attempts_since base fin"
      using new by (auto simp: less_Suc_eq)
    with False show ?thesis by simp
  qed
  with step cont show ?case
    unfolding fin by (blast intro: continues_trans)
qed

lemma kill_loop_covers:
  assumes "well_nested base P nested" and "teardown_inv base P st" and "exit_code st = None"
  shows "teardown_inv base P (foldl (kill_in_loop nested os) st [0..<length (processes st)])"
    and "continues st (foldl (kill_in_loop nested os) st [0..<length (processes st)])"
    and "covered base P (foldl (kill_in_loop nested os) st [0..<length (processes st)])"
proof -
  from assms(2) have len: "length (processes st) = length P"
    by (auto simp: teardown_inv_def)
  note loop = kill_loop [OF assms(1) assms(2) assms(3), of "length P" os, simplified, folded len]
  from loop show "teardown_inv base P (foldl (kill_in_loop nested os) st [0..<length (processes st)])"
    and "continues st (foldl (kill_in_loop nested os) st [0..<length (processes st)])"
    by simp_all
  from loop show "covered base P (foldl (kill_in_loop nested os) st [0..<length (processes st)])"
    unfolding len
    by (cases "exit_code (foldl (kill_in_loop nested os) st [0..<length P]) \<noteq> None")
       (auto simp: covered_def set_conv_nth)
qed

lemma process_exit_keeps:
  assumes N: "well_nested base P nested" and inv: "teardown_inv base P st"
    and live: "exit_code st = None" and cov: "covered base P st"
  shows "teardown_inv base P (snd (process_exit nested st))"
    and "continues st (snd (process_exit nested st))"
    and "covered base P (snd (process_exit nested st))"
proof -
  define st1 where "st1 = st\<lparr>actions := actions st @ [ProcessExit 0]\<rparr>"
  have inv1: "teardown_inv base P st1" and cont1: "continues st st1"
    unfolding st1_def using teardown_inv_append [OF inv] by simp_all
  from inv have base: "base \<le> length (actions st)"
    by (simp add: teardown_inv_def)
  have cov1: "covered base P st1"
    using covered_mono [OF cov cont1 base] .
  have live1: "exit_code st1 = None"
    using live by (simp add: st1_def)
  from inv1 have base1: "base \<le> length (actions st1)"
    by (simp add: teardown_inv_def)
  have "teardown_inv base P (snd (process_exit nested st))
    \<and> continues st (snd (process_exit nested st))
    \<and> covered base P (snd (process_exit nested st))"
  proof (cases "exiting st1")
    case True
    then have eq: "snd (process_exit nested st) = st1\<lparr>exit_code := Some 0\<rparr>"
      by (simp add: process_exit_def st1_def Let_def)
    have "teardown_inv base P (st1\<lparr>exit_code := Some 0\<rparr>)"
      using inv1 by (simp add: teardown_inv_def attempts_since_def)
    moreover have "continues st (st1\<lparr>exit_code := Some 0\<rparr>)"
      using cont1 by (simp add: continues_def)
    moreover have "covered base P (st1\<lparr>exit_code := Some 0\<rparr>)"
      using cov1 by (simp add: covered_def attempts_since_def)
    ultimately show ?thesis by (simp add: eq)
  next
    case False
    define st2 where "st2 = st1\<lparr>exiting := True\<rparr>"
    have inv2: "teardown_inv base P st2"
      using inv1 by (simp add: teardown_inv_def attempts_since_def st2_def)
    have cont2: "continues st st2"
      using cont1 by (simp add: continues_def st2_def)
    have cov2: "covered base P st2"
      using cov1 by (simp add: covered_def attempts_since_def st2_def)
    have live2: "exit_code st2 = None"
      using live1 by (simp add: st2_def)
    have base2: "base \<le> length (actions st2)"
      using base1 by (simp add: st2_def)
    obtain thrown st3 where nested: "nested st2 = (thrown, st3)"
      by (cases "nested st2")
    from N inv2 live2 nested
    have inv3: "teardown_inv base P st3" and cont3: "continues st2 st3"
      unfolding well_nested_def by (metis snd_conv)+
    have cov3: "covered base P st3"
      using covered_mono [OF cov2 cont3 base2] .
    have cont03: "continues st st3"
      using cont2 cont3 by (rule continues_trans)
    have "snd (process_exit nested st) = st3
        \<or> snd (process_exit nested st) = st3\<lparr>exit_code := Some 0\<rparr>"
      using False nested
      by (auto simp: process_exit_def st1_def [symmetric] st2_def [symmetric] Let_def
          split: option.split)
    moreover have "teardown_inv base P (st3\<lparr>exit_code := Some 0\<rparr>)"
      using inv3 by (simp add: teardown_inv_def attempts_since_def)
    moreover have "continues st (st3\<lparr>exit_code := Some 0\<rparr>)"
      using cont03 by (simp add: continues_def)
    moreover have "covered base P (st3\<lparr>exit_code := Some 0\<rparr>)"
      using cov3 by (simp add: covered_def attempts_since_def)
    ultimately show ?thesis
      using inv3 cont03 cov3 by auto
  qed
  then show "teardown_inv base P (snd (process_exit nested st))"
    and "continues st (snd (process_exit nested st))"
    and "covered base P (snd (process_exit nested st))"
    by simp_all
qed

lemma run_cleanup_Suc:
  assumes N: "well_nested base P (run_cleanup stack os)"
    and inv: "teardown_inv base P st" and live: "exit_code st = None"
  shows "teardown_inv base P (snd (run_cleanup (Suc stack) os st))"
    and "continues st (snd (run_cleanup (Suc stack) os st))"
    and "covered base P (snd (run_cleanup (Suc stack) os st))"
proof -
  define st1 where "st1 = console_error st ShuttingDown"
  define st2 where
    "st2 = foldl (kill_in_loop (run_cleanup stack os) os) st1 [0..<length (processes st1)]"
  have inv1: "teardown_inv base P st1" and cont1: "continues st st1"
    unfolding st1_def using teardown_inv_console_error [OF inv] by simp_all
  have live1: "exit_code st1 = None"
    using live by (simp add: st1_def console_error_def)
  note loop = kill_loop_covers [OF N inv1 live1, of os, folded st2_def]
  have cont2: "continues st st2"
    using cont1 loop(2) by (rule continues_trans)
  have "teardown_inv base P (snd (run_cleanup (Suc stack) os st))
    \<and> continues st (snd (run_cleanup (Suc stack) os st))
    \<and> covered base P (snd (run_cleanup (Suc stack) os st))"
  proof (cases "exit_code st2 \<noteq> None")
    case True
    then have "snd (run_cleanup (Suc stack) os st) = st2"
      by (simp add: st1_def [symmetric] st2_def [symmetric] Let_def)
    with loop cont2 show ?thesis by simp
  next
    case False
    then have live2: "exit_code st2 = None" by simp
    from False have "snd (run_cleanup (Suc stack) os st) = snd (process_exit (run_cleanup stack os) st2)"
      by (simp add: st1_def [symmetric] st2_def [symmetric] Let_def)
    with process_exit_keeps [OF N loop(1) live2 loop(3)] cont2 show ?thesis
      by (auto intro: continues_trans)
  qed
  then show "teardown_inv base P (snd (run_cleanup (Suc stack) os st))"
    and "continues st (snd (run_cleanup (Suc stack) os st))"
    and "covered base P (snd (run_cleanup (Suc stack) os st))"
    by simp_all
qed

lemma well_nested_run_cleanup: "well_nested base P (run_cleanup stack os)"
proof (induction stack)
  case 0
  show ?case
    by (simp add: well_nested_def continues_refl)
next
  case (Suc stack)
  show ?case
    unfolding well_nested_def
    using run_cleanup_Suc [OF Suc] by blast
qed

text \<open>
  A teardown with room for the second run ends the process with code 0.
\<close>

lemma teardown_inv_exit_code:
  "teardown_inv base P st \<Longrightarrow> exit_code st \<noteq> None \<Longrightarrow> exit_code st = Some 0"
  by (auto simp: teardown_inv_def)

lemma process_exit_exiting:
  "exiting st \<Longrightarrow>
     process_exit nested st
       = (None, st\<lparr>actions := actions st @ [ProcessExit 0], exit_code := Some 0\<rparr>)"
  by (simp add: process_exit_def Let_def)

lemma process_exit_listener_ends:
  assumes "\<not> exiting st"
    and "nested (st\<lparr>actions := actions st @ [ProcessExit 0], exiting := True\<rparr>) = (None, st')"
    and "exit_code st' = Some 0"
  shows "process_exit nested st = (None, st')"
  using assms by (simp add: process_exit_def Let_def)

lemma run_cleanup_exiting_ends:
  assumes inv: "teardown_inv base P st" and live: "exit_code st = None" and ex: "exiting st"
  shows "run_cleanup (Suc stack) os st = (None, snd (run_cleanup (Suc stack) os st))
    \<and> exit_code (snd (run_cleanup (Suc stack) os st)) = Some 0"
proof -
  define st1 where "st1 = console_error st ShuttingDown"
  define st2 where
    "st2 = foldl (kill_in_loop (run_cleanup stack os) os) st1 [0..<length (processes st1)]"
  have inv1: "teardown_inv base P st1" and cont1: "continues st st1"
    unfolding st1_def using teardown_inv_console_error [OF inv] by simp_all
  have live1: "exit_code st1 = None"
    using live by (simp add: st1_def console_error_def)
  note loop = kill_loop_covers [OF well_nested_run_cleanup inv1 live1, of stack os os,
      folded st2_def]
  have ex2: "exiting st2"
    using cont1 loop(2) ex by (simp add: continues_def)
  show ?thesis
  proof (cases "exit_code st2 \<noteq> None")
    case True
    then have "run_cleanup (Suc stack) os st = (None, st2)"
      by (simp add: st1_def [symmetric] st2_def [symmetric] Let_def)
    with teardown_inv_exit_code [OF loop(1) True] show ?thesis by simp
  next
    case False
    then have "run_cleanup (Suc stack) os st = process_exit (run_cleanup stack os) st2"
      by (simp add: st1_def [symmetric] st2_def [symmetric] Let_def)
    with ex2 show ?thesis
      by (simp add: process_exit_exiting del: run_cleanup.simps)
  qed
qed

lemma cleanup_ends_process:
  assumes "list_all (\<lambda>p. \<not> killed (process p)) (processes st)" and "exit_code st = None"
  shows "run_cleanup (Suc (Suc stack)) os st = (None, snd (run_cleanup (Suc (Suc stack)) os st))
    \<and> exit_code (snd (run_cleanup (Suc (Suc stack)) os st)) = Some 0"
proof -
  define base where "base = length (actions st)"
  define P where "P = tracked_pids st"
  have inv: "teardown_inv base P st"
    using assms by (auto simp: teardown_inv_def tracked_pids_def list_all_iff base_def P_def)
  define st1 where "st1 = console_error st ShuttingDown"
  define st2 where
    "st2 = foldl (kill_in_loop (run_cleanup (Suc stack) os) os) st1 [0..<length (processes st1)]"
  have inv1: "teardown_inv base P st1"
    unfolding st1_def using teardown_inv_console_error [OF inv] by simp
  have live1: "exit_code st1 = None"
    using assms(2) by (simp add: st1_def console_error_def)
  note loop = kill_loop_covers [OF well_nested_run_cleanup inv1 live1, of "Suc stack" os os,
      folded st2_def]
  show ?thesis
  proof (cases "exit_code st2 \<noteq> None")
    case True
    then have "run_cleanup (Suc (Suc stack)) os st = (None, st2)"
      by (simp add: st1_def [symmetric] st2_def [symmetric] Let_def)
    with teardown_inv_exit_code [OF loop(1) True] show ?thesis by simp
  next
    case False
    then have eq: "run_cleanup (Suc (Suc stack)) os st
        = process_exit (run_cleanup (Suc stack) os) st2"
      by (simp add: st1_def [symmetric] st2_def [symmetric] Let_def)
    define st3 where "st3 = st2\<lparr>actions := actions st2 @ [ProcessExit 0]\<rparr>"
    have inv3: "teardown_inv base P st3"
      unfolding st3_def using teardown_inv_append [OF loop(1)] by simp
    have live3: "exit_code st3 = None"
      using False by (simp add: st3_def)
    show ?thesis
    proof (cases "exiting st2")
      case True
      then show ?thesis
        by (simp add: eq process_exit_exiting del: run_cleanup.simps)
    next
      case False
      have inv4: "teardown_inv base P (st3\<lparr>exiting := True\<rparr>)"
        using inv3 by (simp add: teardown_inv_def attempts_since_def)
      from run_cleanup_exiting_ends [OF inv4, of stack os] live3
      have "run_cleanup (Suc stack) os (st3\<lparr>exiting := True\<rparr>)
          = (None, snd (run_cleanup (Suc stack) os (st3\<lparr>exiting := True\<rparr>)))"
        and ends: "exit_code (snd (run_cleanup (Suc stack) os (st3\<lparr>exiting := True\<rparr>))) = Some 0"
        by simp_all
      then have "process_exit (run_cleanup (Suc stack) os) st2
          = (None, snd (run_cleanup (Suc stack) os (st3\<lparr>exiting := True\<rparr>)))"
        using False
        by (intro process_exit_listener_ends) (simp_all add: st3_def del: run_cleanup.simps)
      with ends show ?thesis
        by (simp add: eq del: run_cleanup.simps)
    qed
  qed
qed

lemmas run_eval =
  kill_in_loop_def process_exit_def kill_child_def console_error_def actions_since_def
  tracked_pids_def Let_def upt_rec

text \<open>
  Two teardowns of the children 7 (MCP server) and 8 (visualization server), traced.
  In the first, \<open>kill\<close> throws on child 7 and emits \<open>error\<close> on child 8. In the second,
  \<open>kill\<close> emits \<open>error\<close> on child 7, whose listener runs \<open>cleanup\<close> again, until the
  stack has no room left.
\<close>

lemma run_cleanup_example:
  "actions (snd (run_cleanup (Suc (Suc 0))
      (\<lambda>n p. if p = 7 then Plain KillThrows else ErrorEvent)
      \<lparr>processes = [\<lparr>process = \<lparr>pid = 7, killed = False, on_error = LogAndCleanup\<rparr>,
                      name = ''MCP server''\<rparr>,
                   \<lparr>process = \<lparr>pid = 8, killed = False, on_error = LogOnly\<rparr>,
                      name = ''Visualization server''\<rparr>],
       actions = [], exiting = False, exit_code = None\<rparr>))
   = [ConsoleError ShuttingDown,
      Kill 7, ConsoleError (FailedToKill ''MCP server''),
      Kill 8, ConsoleError VisFailedToStart, ConsoleError (Terminated ''Visualization server''),
      ProcessExit 0,
      ConsoleError ShuttingDown,
      Kill 7, ConsoleError (FailedToKill ''MCP server''),
      Kill 8, ConsoleError VisFailedToStart, ConsoleError (Terminated ''Visualization server''),
      ProcessExit 0]"
  by (simp add: run_eval)

lemma run_cleanup_nested_example:
  "actions (snd (run_cleanup (Suc (Suc (Suc 0)))
      (\<lambda>n p. if p = 7 then ErrorEvent else Plain SignalSent)
      \<lparr>processes = [\<lparr>process = \<lparr>pid = 7, killed = False, on_error = LogAndCleanup\<rparr>,
                      name = ''MCP server''\<rparr>,
                   \<lparr>process = \<lparr>pid = 8, killed = False, on_error = LogOnly\<rparr>,
                      name = ''Visualization server''\<rparr>],
       actions = [], exiting = False, exit_code = None\<rparr>))
   = [ConsoleError ShuttingDown, Kill 7, ConsoleError McpFailedToStart,
      ConsoleError ShuttingDown, Kill 7, ConsoleError McpFailedToStart,
      ConsoleError ShuttingDown, Kill 7, ConsoleError McpFailedToStart,
      ConsoleError (FailedToKill ''MCP server''),
      Kill 8, ConsoleError (Terminated ''Visualization server''),
      ProcessExit 0,
      ConsoleError (FailedToKill ''MCP server''),
      ProcessExit 0]"
  by (simp add: run_eval)

text \<open>
  When no call of \<open>kill\<close> runs a listener, a teardown is two runs of \<open>cleanup\<close>: the
  one that was called, and the one that its \<open>process.exit(0)\<close> runs as the listener
  of \<open>exit\<close>.
\<close>

lemma kill_child_const: "kill_child (\<lambda>q. os (pid (process p))) p = kill_child os p"
  by (simp add: kill_child_def)

lemma kill_in_loop_plain:
  assumes "exit_code st = None"
  shows "kill_in_loop nested (\<lambda>n q. Plain (os q)) st i =
     st\<lparr>processes := (processes st)[i := fst (kill_child os (processes st ! i))],
        actions := actions st @ snd (kill_child os (processes st ! i))\<rparr>"
proof (cases "killed (process (processes st ! i))")
  case True
  then show ?thesis
    using assms by (simp add: kill_in_loop_def kill_child_def)
next
  case False
  then show ?thesis
    using assms by (simp add: kill_in_loop_def Let_def kill_child_const)
qed

lemma kill_loop_plain_prefix:
  assumes "exit_code st = None" and "k \<le> length (processes st)"
  shows "foldl (kill_in_loop nested (\<lambda>n q. Plain (os q))) st [0..<k] =
     st\<lparr>processes := map (\<lambda>p. fst (kill_child os p)) (take k (processes st)) @ drop k (processes st),
        actions := actions st @ concat (map (\<lambda>p. snd (kill_child os p)) (take k (processes st)))\<rparr>"
  using assms(2)
proof (induction k)
  case 0
  show ?case by simp
next
  case (Suc k)
  then have k: "k < length (processes st)" by simp
  let ?mid = "st\<lparr>processes := map (\<lambda>p. fst (kill_child os p)) (take k (processes st)) @ drop k (processes st),
        actions := actions st @ concat (map (\<lambda>p. snd (kill_child os p)) (take k (processes st)))\<rparr>"
  have mid: "foldl (kill_in_loop nested (\<lambda>n q. Plain (os q))) st [0..<k] = ?mid"
    using Suc by simp
  have ex: "exit_code ?mid = None" using assms(1) by simp
  have nth: "processes ?mid ! k = processes st ! k"
    using k by (simp add: nth_append)
  have upd: "(processes ?mid)[k := x] =
      map (\<lambda>p. fst (kill_child os p)) (take k (processes st)) @ x # drop (Suc k) (processes st)" for x
    using k by (simp add: list_update_append upd_conv_take_nth_drop Cons_nth_drop_Suc) 
  have "foldl (kill_in_loop nested (\<lambda>n q. Plain (os q))) st [0..<Suc k] =
      kill_in_loop nested (\<lambda>n q. Plain (os q)) ?mid k"
    using mid by simp
  also have "\<dots> = ?mid\<lparr>processes := (processes ?mid)[k := fst (kill_child os (processes st ! k))],
        actions := actions ?mid @ snd (kill_child os (processes st ! k))\<rparr>"
    using kill_in_loop_plain [OF ex, of nested os k] nth by simp
  also have "\<dots> = st\<lparr>processes := map (\<lambda>p. fst (kill_child os p)) (take (Suc k) (processes st)) @ drop (Suc k) (processes st),
        actions := actions st @ concat (map (\<lambda>p. snd (kill_child os p)) (take (Suc k) (processes st)))\<rparr>"
    using k upd by (simp add: take_Suc_conv_app_nth)
  finally show ?case .
qed

lemma kill_loop_plain:
  assumes "exit_code st = None"
  shows "foldl (kill_in_loop nested (\<lambda>n q. Plain (os q))) st [0..<length (processes st)] =
     st\<lparr>processes := map (\<lambda>p. fst (kill_child os p)) (processes st),
        actions := actions st @ concat (map (\<lambda>p. snd (kill_child os p)) (processes st))\<rparr>"
  using kill_loop_plain_prefix [OF assms, of "length (processes st)" nested os] by simp

lemma run_cleanup_plain_pass:
  assumes "exit_code s = None"
  shows "run_cleanup (Suc n) (\<lambda>n q. Plain (os q)) s =
     process_exit (run_cleanup n (\<lambda>n q. Plain (os q)))
       (s\<lparr>processes := map (\<lambda>p. fst (kill_child os p)) (processes s),
          actions := actions s @ [ConsoleError ShuttingDown]
                     @ concat (map (\<lambda>p. snd (kill_child os p)) (processes s))\<rparr>)"
  using kill_loop_plain [of "console_error s ShuttingDown" "run_cleanup n (\<lambda>n q. Plain (os q))" os] assms
  by (simp add: console_error_def Let_def)

lemma run_cleanup_plain:
  assumes "exit_code st = None" and "\<not> exiting st"
  shows "run_cleanup (Suc (Suc stack)) (\<lambda>n q. Plain (os q)) st =
     (None, (cleanup os (cleanup os st))\<lparr>exiting := True\<rparr>)"
proof -
  let ?os = "\<lambda>n q. Plain (os q)"
  let ?s1 = "st\<lparr>processes := map (\<lambda>p. fst (kill_child os p)) (processes st),
        actions := actions st @ [ConsoleError ShuttingDown]
                   @ concat (map (\<lambda>p. snd (kill_child os p)) (processes st)) @ [ProcessExit 0],
        exiting := True\<rparr>"
  have inner: "run_cleanup (Suc stack) ?os ?s1 = (None, (cleanup os (cleanup os st))\<lparr>exiting := True\<rparr>)"
    using assms(1) run_cleanup_plain_pass [of ?s1 stack os]
    by (simp add: Let_def process_exit_def cleanup_def del: run_cleanup.simps)
  have "run_cleanup (Suc (Suc stack)) ?os st =
      process_exit (run_cleanup (Suc stack) ?os)
       (st\<lparr>processes := map (\<lambda>p. fst (kill_child os p)) (processes st),
          actions := actions st @ [ConsoleError ShuttingDown]
                     @ concat (map (\<lambda>p. snd (kill_child os p)) (processes st))\<rparr>)"
    using assms(1) by (rule run_cleanup_plain_pass)
  also have "\<dots> = (None, (cleanup os (cleanup os st))\<lparr>exiting := True\<rparr>)"
    using assms inner
    by (simp add: Let_def process_exit_def del: run_cleanup.simps)
       (simp add: cleanup_def)
  finally show ?thesis .
qed

text \<open>
  C9. A teardown that starts with no handle marked as killed, as every teardown does,
  calls \<open>kill\<close> on every tracked child, whatever each call of \<open>kill\<close> does: deliver
  the signal, fail to, throw, or emit \<open>error\<close> and so run \<open>cleanup\<close> again inside
  the loop, to any depth the stack allows. A call that throws does not stop the calls
  for the children after it. The tracked children stay the same.
\<close>

theorem cleanup_attempts_every_tracked_child:
  assumes "list_all (\<lambda>p. \<not> killed (process p)) (processes st)" and "exit_code st = None"
  shows "set (tracked_pids st)
           \<subseteq> set (kill_attempts (actions_since st (snd (run_cleanup (Suc stack) os st))))
    \<and> tracked_pids (snd (run_cleanup (Suc stack) os st)) = tracked_pids st"
proof -
  have inv: "teardown_inv (length (actions st)) (tracked_pids st) st"
    using assms by (auto simp: teardown_inv_def tracked_pids_def list_all_iff)
  note run = run_cleanup_Suc [OF well_nested_run_cleanup inv assms(2), of stack os]
  from run(3) have "set (tracked_pids st)
      \<subseteq> set (kill_attempts (actions_since st (snd (run_cleanup (Suc stack) os st))))"
    by (simp add: covered_def attempts_since_def actions_since_def)
  moreover from run(1) have "tracked_pids (snd (run_cleanup (Suc stack) os st)) = tracked_pids st"
    by (simp add: teardown_inv_def tracked_pids_def)
  ultimately show ?thesis by simp
qed

theorem cleanup_attempts_every_tracked_child_witness:
  "list_all (\<lambda>p. \<not> killed (process p))
     (processes
       \<lparr>processes = [\<lparr>process = \<lparr>pid = 7, killed = False, on_error = LogAndCleanup\<rparr>,
                       name = ''MCP server''\<rparr>,
                    \<lparr>process = \<lparr>pid = 8, killed = False, on_error = LogOnly\<rparr>,
                       name = ''Visualization server''\<rparr>],
        actions = [Delay 1000], exiting = False, exit_code = None\<rparr>)
   \<and> kill_attempts (actions_since
        \<lparr>processes = [\<lparr>process = \<lparr>pid = 7, killed = False, on_error = LogAndCleanup\<rparr>,
                        name = ''MCP server''\<rparr>,
                     \<lparr>process = \<lparr>pid = 8, killed = False, on_error = LogOnly\<rparr>,
                        name = ''Visualization server''\<rparr>],
         actions = [Delay 1000], exiting = False, exit_code = None\<rparr>
        (snd (run_cleanup (Suc (Suc 0))
          (\<lambda>n p. if p = 7 then Plain KillThrows else ErrorEvent)
          \<lparr>processes = [\<lparr>process = \<lparr>pid = 7, killed = False, on_error = LogAndCleanup\<rparr>,
                          name = ''MCP server''\<rparr>,
                       \<lparr>process = \<lparr>pid = 8, killed = False, on_error = LogOnly\<rparr>,
                          name = ''Visualization server''\<rparr>],
           actions = [Delay 1000], exiting = False, exit_code = None\<rparr>))) = [7, 8, 7, 8]
   \<and> set (tracked_pids
        \<lparr>processes = [\<lparr>process = \<lparr>pid = 7, killed = False, on_error = LogAndCleanup\<rparr>,
                        name = ''MCP server''\<rparr>,
                     \<lparr>process = \<lparr>pid = 8, killed = False, on_error = LogOnly\<rparr>,
                        name = ''Visualization server''\<rparr>],
         actions = [Delay 1000], exiting = False, exit_code = None\<rparr>) = {7, 8}"
  using cleanup_attempts_every_tracked_child
    [of "\<lparr>processes = [\<lparr>process = \<lparr>pid = 7, killed = False, on_error = LogAndCleanup\<rparr>,
                          name = ''MCP server''\<rparr>,
                       \<lparr>process = \<lparr>pid = 8, killed = False, on_error = LogOnly\<rparr>,
                          name = ''Visualization server''\<rparr>],
           actions = [Delay 1000], exiting = False, exit_code = None\<rparr>"
        "Suc 0" "\<lambda>n p. if p = 7 then Plain KillThrows else ErrorEvent"]
  by (simp add: run_eval)



end
